theory Spec2Isabelle
  imports Main "HOL-Library.AList" "HOL-Library.Sublist" "HOL-Library.Word"
begin

section \<open>JavaScript values\<close>

text \<open>
  The engine passes JSON-like data between nodes (\<^verbatim>\<open>INodeData\<close> and \<^verbatim>\<open>INodeParams\<close> are
  string-keyed records of \<^verbatim>\<open>any\<close>).  Values are modelled as JSON values plus \<^verbatim>\<open>undefined\<close>.

  A number is an IEEE double.  \<open>JNum w\<close> is the integer \<open>sint w\<close> between \<open>-2\<^sup>5\<^sup>3\<close> and
  \<open>2\<^sup>5\<^sup>3 - 1\<close>: these integers are doubles, and the runtime prints each of them with all
  its digits.  Every other number is \<open>JDouble s\<close>, where \<open>s\<close> is the text the runtime
  prints for it (\<^verbatim>\<open>1.5\<close>, \<^verbatim>\<open>1e+21\<close>, \<^verbatim>\<open>NaN\<close>, \<^verbatim>\<open>-Infinity\<close>); that text determines the
  number.  Negative zero prints and tests like zero and is not distinguished from it.

  An object is the association list of its own properties; what a key finds beyond the
  own properties (along the prototype chain) is a matter of the built-in objects of the
  runtime and is modelled with the executors that look keys up.
\<close>

datatype jsval =
    JUndefined
  | JNull
  | JBool bool
  | JNum "54 word"
  | JDouble string
  | JStr string
  | JArr "jsval list"
  | JObj "(string \<times> jsval) list"

type_synonym obj = "(string \<times> jsval) list"

text \<open>Truthiness, as used by \<^verbatim>\<open>!x\<close>, \<^verbatim>\<open>x || y\<close>, \<^verbatim>\<open>x ? a : b\<close> and \<^verbatim>\<open>Boolean(x)\<close>.\<close>

fun truthy :: "jsval \<Rightarrow> bool" where
  "truthy JUndefined = False"
| "truthy JNull = False"
| "truthy (JBool b) = b"
| "truthy (JNum n) = (n \<noteq> 0)"
| "truthy (JDouble s) = (s \<noteq> ''NaN'')"
| "truthy (JStr s) = (s \<noteq> [])"
| "truthy (JArr xs) = True"
| "truthy (JObj kvs) = True"

text \<open>\<^verbatim>\<open>params.key\<close> on a record: the own property, or \<^verbatim>\<open>undefined\<close>.\<close>

definition get_prop :: "obj \<Rightarrow> string \<Rightarrow> jsval" where
  "get_prop r k = (case map_of r k of None \<Rightarrow> JUndefined | Some v \<Rightarrow> v)"

text \<open>A destructuring default \<^verbatim>\<open>{ key = d } = params\<close> applies exactly when the property is
  \<^verbatim>\<open>undefined\<close>.\<close>

definition get_prop_default :: "obj \<Rightarrow> string \<Rightarrow> jsval \<Rightarrow> jsval" where
  "get_prop_default r k d = (if get_prop r k = JUndefined then d else get_prop r k)"

text \<open>\<^verbatim>\<open>inputData[0] || {}\<close>: records are objects, hence truthy; only the empty list
  falls through to the empty record.\<close>

definition first_or_empty :: "obj list \<Rightarrow> obj" where
  "first_or_empty inputData = (case inputData of [] \<Rightarrow> [] | d # _ \<Rightarrow> d)"

subsection \<open>Number and string conversions\<close>

fun show_nat :: "nat \<Rightarrow> string" where
  "show_nat n =
     (if n < 10 then [''0123456789'' ! n]
      else show_nat (n div 10) @ [''0123456789'' ! (n mod 10)])"

declare show_nat.simps [simp del]

definition show_int :: "int \<Rightarrow> string" where
  "show_int i = (if i < 0 then CHR ''-'' # show_nat (nat (- i)) else show_nat (nat i))"

fun join :: "string \<Rightarrow> string list \<Rightarrow> string" where
  "join sep [] = []"
| "join sep [x] = x"
| "join sep (x # y # ys) = x @ sep @ join sep (y # ys)"

text \<open>The number as the runtime prints it, for an integer.\<close>

definition show_whole :: "54 word \<Rightarrow> string" where
  "show_whole w = show_int (sint w)"

text \<open>
  The string conversion of template literals and of \<^verbatim>\<open>String.prototype.replace\<close>
  callbacks (\<^verbatim>\<open>ToString\<close>).  An array is converted by joining the conversions of its
  elements.  An object without an own property \<^verbatim>\<open>toString\<close> is converted by
  \<^verbatim>\<open>Object.prototype.toString\<close>; an own property \<^verbatim>\<open>toString\<close> of a data object is not
  callable, and as \<^verbatim>\<open>valueOf\<close> yields no primitive either, the conversion throws a
  \<^verbatim>\<open>TypeError\<close> (the result \<open>None\<close>).
\<close>

fun to_string :: "jsval \<Rightarrow> string option" where
  "to_string JUndefined = Some ''undefined''"
| "to_string JNull = Some ''null''"
| "to_string (JBool b) = Some (if b then ''true'' else ''false'')"
| "to_string (JNum n) = Some (show_whole n)"
| "to_string (JDouble s) = Some s"
| "to_string (JStr s) = Some s"
| "to_string (JArr xs) =
     map_option (join '','')
       (those (map (\<lambda>x. if x = JUndefined \<or> x = JNull then Some [] else to_string x) xs))"
| "to_string (JObj kvs) =
     (if ''toString'' \<in> fst ` set kvs then None else Some ''[object Object]'')"

text \<open>The message of that \<^verbatim>\<open>TypeError\<close>.\<close>

definition cannot_convert :: string where
  "cannot_convert = ''Cannot convert object to primitive value''"

text \<open>
  The order in which the runtime enumerates the own properties of an object: first the
  keys that are array indices (the canonical decimal form of a number below
  \<open>2\<^sup>3\<^sup>2 - 1\<close>) in ascending order, then the other keys in the order of their insertion.
\<close>

definition decimal :: "string \<Rightarrow> nat" where
  "decimal k = foldl (\<lambda>n c. 10 * n + (of_char c - 48)) 0 k"

definition index_of :: "string \<Rightarrow> nat option" where
  "index_of k =
     (if k \<noteq> [] \<and> list_all (\<lambda>c. c \<in> set ''0123456789'') k
         \<and> (length k = 1 \<or> hd k \<noteq> CHR ''0'') \<and> decimal k < 4294967295
      then Some (decimal k) else None)"

definition own_entries :: "(string \<times> 'a) list \<Rightarrow> (string \<times> 'a) list" where
  "own_entries kvs =
     sort_key (\<lambda>(k, v). case index_of k of None \<Rightarrow> 0 | Some n \<Rightarrow> n)
       (filter (\<lambda>(k, v). index_of k \<noteq> None) kvs)
     @ filter (\<lambda>(k, v). index_of k = None) kvs"

text \<open>\<^verbatim>\<open>JSON.stringify(value)\<close>: \<^verbatim>\<open>undefined\<close> has no serialisation (the call returns
  \<^verbatim>\<open>undefined\<close>, here \<open>None\<close>); inside an array it is written \<^verbatim>\<open>null\<close>, inside an object
  the property is skipped.  A number that is not finite is written \<^verbatim>\<open>null\<close>.\<close>

definition json_double :: "string \<Rightarrow> string" where
  "json_double s = (if s \<in> {''NaN'', ''Infinity'', ''-Infinity''} then ''null'' else s)"

definition escape_char :: "char \<Rightarrow> string" where
  "escape_char c =
     (if c = CHR 0x22 then [CHR 0x5C, CHR 0x22]
      else if c = CHR 0x5C then [CHR 0x5C, CHR 0x5C]
      else if c = CHR 0x08 then [CHR 0x5C, CHR ''b'']
      else if c = CHR 0x0C then [CHR 0x5C, CHR ''f'']
      else if c = CHR 0x0A then [CHR 0x5C, CHR ''n'']
      else if c = CHR 0x0D then [CHR 0x5C, CHR ''r'']
      else if c = CHR 0x09 then [CHR 0x5C, CHR ''t'']
      else if (of_char c :: nat) < 32
        then [CHR 0x5C, CHR ''u'', CHR ''0'', CHR ''0'',
              ''0123456789abcdef'' ! (of_char c div 16),
              ''0123456789abcdef'' ! (of_char c mod 16)]
      else [c])"

definition quote :: "string \<Rightarrow> string" where
  "quote s = [CHR 0x22] @ concat (map escape_char s) @ [CHR 0x22]"

function stringify :: "jsval \<Rightarrow> string option" where
  "stringify JUndefined = None"
| "stringify JNull = Some ''null''"
| "stringify (JBool b) = Some (if b then ''true'' else ''false'')"
| "stringify (JNum n) = Some (show_whole n)"
| "stringify (JDouble s) = Some (json_double s)"
| "stringify (JStr s) = Some (quote s)"
| "stringify (JArr xs) =
     Some (''['' @ join '','' (map (\<lambda>x. case stringify x of None \<Rightarrow> ''null'' | Some t \<Rightarrow> t) xs)
           @ '']'')"
| "stringify (JObj kvs) =
     Some (''{'' @ join '',''
             (concat (map (\<lambda>(k, v). case stringify v of None \<Rightarrow> []
                                     | Some t \<Rightarrow> [quote k @ '':'' @ t]) (own_entries kvs)))
           @ ''}'')"
  by pat_completeness auto
termination
proof -
  have entries: "set (own_entries kvs) = set kvs" for kvs :: "(string \<times> jsval) list"
    by (auto simp: own_entries_def)
  have smaller: "size v < Suc (size_list (size_prod (\<lambda>x. 0) size) kvs)"
    if "(k, v) \<in> set kvs" for k v and kvs :: "(string \<times> jsval) list"
    using that by (induction kvs) auto
  have element: "size x < Suc (size_list size xs)" if "x \<in> set xs" for x and xs :: "jsval list"
    using that by (induction xs) auto
  show ?thesis
    by (relation "measure size") (auto simp: entries dest: smaller element)
qed

text \<open>\<^verbatim>\<open>JSON.stringify(value, null, 2)\<close>, at the indentation \<open>ind\<close>.\<close>

function stringify_indent :: "string \<Rightarrow> jsval \<Rightarrow> string option" where
  "stringify_indent ind JUndefined = None"
| "stringify_indent ind JNull = Some ''null''"
| "stringify_indent ind (JBool b) = Some (if b then ''true'' else ''false'')"
| "stringify_indent ind (JNum n) = Some (show_whole n)"
| "stringify_indent ind (JDouble s) = Some (json_double s)"
| "stringify_indent ind (JStr s) = Some (quote s)"
| "stringify_indent ind (JArr xs) =
     (if xs = [] then Some ''[]''
      else Some (''['' @ [CHR 0x0A] @ ind @ ''  ''
                 @ join ('','' @ [CHR 0x0A] @ ind @ ''  '')
                     (map (\<lambda>x. case stringify_indent (ind @ ''  '') x of
                                 None \<Rightarrow> ''null'' | Some t \<Rightarrow> t) xs)
                 @ [CHR 0x0A] @ ind @ '']''))"
| "stringify_indent ind (JObj kvs) =
     (let ps = concat (map (\<lambda>(k, v). case stringify_indent (ind @ ''  '') v of
                                       None \<Rightarrow> []
                                     | Some t \<Rightarrow> [quote k @ '': '' @ t]) (own_entries kvs))
      in if ps = [] then Some ''{}''
         else Some (''{'' @ [CHR 0x0A] @ ind @ ''  ''
                    @ join ('','' @ [CHR 0x0A] @ ind @ ''  '') ps
                    @ [CHR 0x0A] @ ind @ ''}''))"
  by pat_completeness auto
termination
proof -
  have entries: "set (own_entries kvs) = set kvs" for kvs :: "(string \<times> jsval) list"
    by (auto simp: own_entries_def)
  have smaller: "size v < Suc (size_list (size_prod (\<lambda>x. 0) size) kvs)"
    if "(k, v) \<in> set kvs" for k v and kvs :: "(string \<times> jsval) list"
    using that by (induction kvs) auto
  have element: "size x < Suc (size_list size xs)" if "x \<in> set xs" for x and xs :: "jsval list"
    using that by (induction xs) auto
  show ?thesis
    by (relation "measure (\<lambda>(ind, v). size v)") (auto simp: entries dest: smaller element)
qed

text \<open>\<^verbatim>\<open>String.prototype.toLowerCase\<close> on ASCII letters.\<close>

definition lower_char :: "char \<Rightarrow> char" where
  "lower_char c =
     (case map_of (zip ''ABCDEFGHIJKLMNOPQRSTUVWXYZ'' ''abcdefghijklmnopqrstuvwxyz'') c of
        None \<Rightarrow> c
      | Some l \<Rightarrow> l)"

definition toLowerCase :: "string \<Rightarrow> string" where
  "toLowerCase s = map lower_char s"

section \<open>Errors\<close>

text \<open>
  The source throws plain \<^verbatim>\<open>Error\<close> objects that differ in their message only.  Each
  throw site is one constructor, named after the specification's taxonomy;
  \<open>error_message\<close> renders the message the source builds.  \<open>ConditionEvaluationError\<close>
  carries the text of the condition and the message of the caught error;
  \<open>PrimitiveConversionError\<close> is the \<^verbatim>\<open>TypeError\<close> of a failed string conversion.
\<close>

datatype error =
    MissingParameter
  | HttpStatusError "54 word" string
  | NoResponse
  | RequestFailed string
  | ConditionEvaluationError string string
  | PrimitiveConversionError
  | InvalidConnection string string
  | CycleDetected
  | NodeConfigNotFound string
  | UnregisteredNodeType string

fun error_message :: "error \<Rightarrow> string" where
  "error_message MissingParameter = ''URL is required for HTTP request''"
| "error_message (HttpStatusError st reason) = ''HTTP '' @ show_whole st @ '': '' @ reason"
| "error_message NoResponse = ''No response received from server''"
| "error_message (RequestFailed m) = ''Request failed: '' @ m"
| "error_message (ConditionEvaluationError c m) =
     ''Failed to evaluate condition '' @ [CHR 0x22] @ c @ [CHR 0x22] @ '': '' @ m"
| "error_message PrimitiveConversionError = cannot_convert"
| "error_message (InvalidConnection a b) = ''Invalid connection: '' @ a @ '' -> '' @ b"
| "error_message CycleDetected = ''Workflow contains a cycle and cannot be executed''"
| "error_message (NodeConfigNotFound n) = ''Node configuration not found for '' @ n"
| "error_message (UnregisteredNodeType t) =
     ''Node type '' @ [CHR 0x22] @ t @ [CHR 0x22] @ '' is not registered''"

text \<open>The message of the \<^verbatim>\<open>TypeError\<close> raised by calling a string method \<open>m\<close> on the value
  \<open>v\<close> of the variable \<open>x\<close> when \<open>v\<close> is not a string (wording of V8).\<close>

definition type_error_message :: "string \<Rightarrow> string \<Rightarrow> jsval \<Rightarrow> string" where
  "type_error_message x m v =
     (if v = JNull then ''Cannot read properties of null (reading '' @ [CHR 0x27] @ m @ [CHR 0x27] @ '')''
      else x @ ''.'' @ m @ '' is not a function'')"

section \<open>Node executors\<close>

subsection \<open>StartNode\<close>

text \<open>\<^verbatim>\<open>[{ startTime: new Date().toISOString(), ...params }]\<close>; the clock reading is the
  argument \<open>now\<close>.\<close>

definition StartNode_execute :: "string \<Rightarrow> obj list \<Rightarrow> obj \<Rightarrow> error + obj list" where
  "StartNode_execute now inputData params =
     Inr [fold (\<lambda>(k, v). AList.update k v) params [(''startTime'', JStr now)]]"

subsection \<open>FetchApiNode\<close>

text \<open>
  The HTTP transport (\<^verbatim>\<open>axios\<close>) is a parameter: given the request configuration it either
  resolves with a response or rejects with an error object, of which the source reads
  \<^verbatim>\<open>error.response\<close> (status and status text), \<^verbatim>\<open>error.request\<close> and \<^verbatim>\<open>error.message\<close>.
\<close>

record request =
  rq_method :: string
  rq_url :: jsval
  rq_headers :: jsval
  rq_data :: jsval
  rq_timeout :: nat

record axios_error =
  err_response :: "(54 word \<times> string) option"
  err_request :: bool
  err_message :: string

datatype axios_outcome =
    Resolved "54 word" jsval jsval
  | Rejected axios_error

text \<open>The \<^verbatim>\<open>catch\<close> block of \<^verbatim>\<open>FetchApiNode.execute\<close>.\<close>

definition classify :: "axios_error \<Rightarrow> error" where
  "classify e =
     (case err_response e of
        Some (st, reason) \<Rightarrow> HttpStatusError st reason
      | None \<Rightarrow> if err_request e then NoResponse else RequestFailed (err_message e))"

text \<open>The executor returns the requests it handed to the transport together with its
  result (\<open>Inl\<close> for a thrown error).\<close>

definition FetchApiNode_execute ::
  "(request \<Rightarrow> axios_outcome) \<Rightarrow> obj list \<Rightarrow> obj \<Rightarrow> request list \<times> (error + obj list)" where
  "FetchApiNode_execute axios inputData params =
     (let method = get_prop_default params ''method'' (JStr ''GET'');
          url = get_prop params ''url'';
          headers = get_prop_default params ''headers'' (JObj []);
          body = get_prop params ''body''
      in if \<not> truthy url then ([], Inl MissingParameter)
         else case method of
           JStr m \<Rightarrow>
             (let rq = \<lparr>rq_method = toLowerCase m, rq_url = url, rq_headers = headers,
                        rq_data = body, rq_timeout = 30000\<rparr>
              in ([rq],
                  case axios rq of
                    Resolved st hs d \<Rightarrow>
                      Inr [[(''statusCode'', JNum st), (''headers'', hs), (''data'', d),
                            (''inputData'', JObj (first_or_empty inputData))]]
                  | Rejected e \<Rightarrow> Inl (classify e)))
         | _ \<Rightarrow>
             ([], Inl (classify \<lparr>err_response = None, err_request = False,
                         err_message = type_error_message ''method'' ''toLowerCase'' method\<rparr>)))"

text \<open>Modelled from the spec: the HTTP client library behind the transport (\<^verbatim>\<open>axios\<close>) is
  not part of the repository.  An exchange ends with a response, or without one after
  the request was sent (a timeout or a connection failure), or before the request could
  be constructed or sent.  A response with a status from 200 to 299 settles the call
  as a success; every other response settles it as a failure that carries the
  response.\<close>

datatype exchange =
    Response "54 word" string jsval jsval
  | NoReply string
  | NotSent string

definition axios_default :: "(request \<Rightarrow> exchange) \<Rightarrow> request \<Rightarrow> axios_outcome" where
  "axios_default http rq =
     (case http rq of
        Response st reason hs d \<Rightarrow>
          if 200 \<le> sint st \<and> sint st < 300 then Resolved st hs d
          else Rejected \<lparr>err_response = Some (st, reason), err_request = True,
                         err_message = ''Request failed with status code '' @ show_whole st\<rparr>
      | NoReply m \<Rightarrow> Rejected \<lparr>err_response = None, err_request = True, err_message = m\<rparr>
      | NotSent m \<Rightarrow> Rejected \<lparr>err_response = None, err_request = False, err_message = m\<rparr>)"

subsection \<open>LogMessageNode\<close>

definition LogMessageNode_execute :: "string \<Rightarrow> obj list \<Rightarrow> obj \<Rightarrow> error + obj list" where
  "LogMessageNode_execute now inputData params =
     (let message = get_prop_default params ''message'' (JStr ''Log output'');
          data = first_or_empty inputData
      in Inr [[(''logMessage'', message), (''loggedData'', JObj data),
               (''timestamp'', JStr now)]])"

subsection \<open>Looking up keys\<close>

text \<open>\<^verbatim>\<open>path.split('.')\<close>.\<close>

fun split_on :: "char \<Rightarrow> string \<Rightarrow> string list" where
  "split_on c [] = [[]]"
| "split_on c (x # xs) =
     (if x = c then [] # split_on c xs
      else case split_on c xs of [] \<Rightarrow> [[x]] | s # ss \<Rightarrow> (x # s) # ss)"

text \<open>An array or string element is addressed by the canonical decimal form of its
  index.\<close>

definition nth_by_key :: "'a list \<Rightarrow> string \<Rightarrow> 'a option" where
  "nth_by_key xs k = map_of (zip (map show_nat [0 ..< length xs]) xs) k"

text \<open>The own properties of a value: the fields of an object, the elements and the
  length of an array or a string (an array or string of the runtime has fewer than
  \<open>2\<^sup>3\<^sup>2\<close> elements).\<close>

fun own_property :: "jsval \<Rightarrow> string \<Rightarrow> jsval option" where
  "own_property (JObj kvs) k = map_of kvs k"
| "own_property (JArr xs) k =
     (if k = ''length'' then Some (JNum (of_nat (length xs))) else nth_by_key xs k)"
| "own_property (JStr s) k =
     (if k = ''length'' then Some (JNum (of_nat (length s)))
      else map_option (\<lambda>c. JStr [c]) (nth_by_key s k))"
| "own_property v k = None"

text \<open>
  A key that is not an own property is looked up along the prototype chain, in the
  built-in objects of the runtime (\<^verbatim>\<open>Object.prototype\<close>, \<^verbatim>\<open>Array.prototype\<close>, ...).  What
  is found there can be a function or an object that is no data value; such a host
  value is known by a name.  The built-in objects are a parameter, as \<^verbatim>\<open>eval\<close> is:
  \<open>inherited v k\<close> is the result of \<^verbatim>\<open>v[k]\<close> for a key \<open>k\<close> that is not an own property of
  the data value \<open>v\<close>, \<open>host_member h k\<close> is the result of \<^verbatim>\<open>h[k]\<close> for a host value,
  \<open>host_json\<close> is \<^verbatim>\<open>JSON.stringify\<close> and \<open>host_text\<close> the string conversion of a host
  value.  Each of them can throw (an accessor can, and so can the serialisation of a
  cyclic object); \<open>Inl\<close> carries the message of the error.
\<close>

type_synonym host = string

datatype walked = Data jsval | Host host

record builtins =
  inherited :: "jsval \<Rightarrow> string \<Rightarrow> string + walked"
  host_member :: "host \<Rightarrow> string \<Rightarrow> string + walked"
  host_json :: "host \<Rightarrow> string + string option"
  host_text :: "host \<Rightarrow> string + string"

text \<open>\<^verbatim>\<open>obj[key]\<close> on a data value that is neither \<^verbatim>\<open>null\<close> nor \<^verbatim>\<open>undefined\<close>.\<close>

definition member_access :: "builtins \<Rightarrow> jsval \<Rightarrow> string \<Rightarrow> string + walked" where
  "member_access b v k =
     (case own_property v k of Some x \<Rightarrow> Inr (Data x) | None \<Rightarrow> inherited b v k)"

text \<open>\<^verbatim>\<open>obj?.[key]\<close>.\<close>

definition optional_access :: "builtins \<Rightarrow> walked \<Rightarrow> string \<Rightarrow> string + walked" where
  "optional_access b w k =
     (case w of
        Data v \<Rightarrow> if v = JUndefined \<or> v = JNull then Inr (Data JUndefined)
                  else member_access b v k
      | Host h \<Rightarrow> host_member b h k)"

text \<open>\<^verbatim>\<open>keys.reduce(step, start)\<close> for a step that can throw.\<close>

fun walk :: "(walked \<Rightarrow> string \<Rightarrow> string + walked) \<Rightarrow> string list \<Rightarrow> walked \<Rightarrow> string + walked" where
  "walk step [] w = Inr w"
| "walk step (k # ks) w = (case step w k of Inl e \<Rightarrow> Inl e | Inr w' \<Rightarrow> walk step ks w')"

text \<open>\<^verbatim>\<open>path.split('.').reduce((obj, key) => obj?.[key], data)\<close>.\<close>

definition resolve_path :: "builtins \<Rightarrow> obj \<Rightarrow> string \<Rightarrow> string + walked" where
  "resolve_path b data path =
     walk (optional_access b) (split_on CHR ''.'' path) (Data (JObj data))"

subsection \<open>Placeholders\<close>

text \<open>
  One attempt of the regular expression \<^verbatim>\<open>/\{\{([^}]+)\}\}/\<close> at the start of \<open>s\<close>: two
  opening braces, the longest non-empty run of characters other than a closing brace,
  two closing braces.  The result is the captured path and the text after the match.
\<close>

definition match_placeholder :: "string \<Rightarrow> (string \<times> string) option" where
  "match_placeholder s =
     (if take 2 s = ''{{'' then
        (let p = takeWhile (\<lambda>c. c \<noteq> CHR ''}'') (drop 2 s);
             r = dropWhile (\<lambda>c. c \<noteq> CHR ''}'') (drop 2 s)
         in if p \<noteq> [] \<and> take 2 r = ''}}'' then Some (p, drop 2 r) else None)
      else None)"

text \<open>The text \<open>t\<close> in front of the rest of a replacement, unless that rest threw.\<close>

definition prepend :: "string \<Rightarrow> string + string \<Rightarrow> string + string" where
  "prepend t r = (case r of Inl e \<Rightarrow> Inl e | Inr u \<Rightarrow> Inr (t @ u))"

text \<open>\<^verbatim>\<open>s.replace(/\{\{([^}]+)\}\}/g, callback)\<close>: a left-to-right scan; at a match the
  callback's result (called with the captured path) replaces the match and the scan goes
  on behind it, otherwise one character is copied.  An error thrown by the callback
  ends the scan.\<close>

function replace_placeholders :: "(string \<Rightarrow> string + string) \<Rightarrow> string \<Rightarrow> string + string" where
  "replace_placeholders f [] = Inr []"
| "replace_placeholders f (c # cs) =
     (case match_placeholder (c # cs) of
        Some (p, rest) \<Rightarrow>
          (case f p of Inl e \<Rightarrow> Inl e | Inr t \<Rightarrow> prepend t (replace_placeholders f rest))
      | None \<Rightarrow> prepend [c] (replace_placeholders f cs))"
  by pat_completeness auto
termination
proof -
  have shorter: "length rest < length s" if m: "match_placeholder s = Some (p, rest)" for s p rest
  proof -
    let ?t = "drop 2 s"
    from m have 1: "take 2 s = ''{{''"
      and 2: "rest = drop 2 (dropWhile (\<lambda>c. c \<noteq> CHR ''}'') ?t)"
      by (auto simp: match_placeholder_def Let_def split: if_splits)
    have "length (dropWhile (\<lambda>c. c \<noteq> CHR ''}'') ?t) \<le> length ?t"
      by (rule length_dropWhile_le)
    moreover from 1 have "length s \<ge> 2"
      by (cases s; cases "tl s") auto
    ultimately show ?thesis using 2 by simp
  qed
  show ?thesis
    by (relation "measure (\<lambda>(f, s). length s)") (auto dest: shorter)
qed

subsection \<open>IfNode\<close>

text \<open>The replacement callback of \<^verbatim>\<open>IfNode.execute\<close>: the value found at the path,
  serialised by \<^verbatim>\<open>JSON.stringify\<close>; \<^verbatim>\<open>replace\<close> turns a callback result \<^verbatim>\<open>undefined\<close>
  into the text \<^verbatim>\<open>undefined\<close>.\<close>

definition serialized_at :: "builtins \<Rightarrow> obj \<Rightarrow> string \<Rightarrow> string + string" where
  "serialized_at b data path =
     (case resolve_path b data path of
        Inl e \<Rightarrow> Inl e
      | Inr (Data v) \<Rightarrow> Inr (case stringify v of None \<Rightarrow> ''undefined'' | Some t \<Rightarrow> t)
      | Inr (Host h) \<Rightarrow>
          (case host_json b h of
             Inl e \<Rightarrow> Inl e
           | Inr None \<Rightarrow> Inr ''undefined''
           | Inr (Some t) \<Rightarrow> Inr t))"

definition evaluableCondition :: "builtins \<Rightarrow> obj \<Rightarrow> string \<Rightarrow> string + string" where
  "evaluableCondition b data condition = replace_placeholders (serialized_at b data) condition"

text \<open>
  \<^verbatim>\<open>eval\<close> is a parameter \<open>js_eval\<close>: it returns the value of the expression or the
  message of the error it throws.  (Side effects of evaluated code are outside the
  model.)  A condition that is not a string has no \<^verbatim>\<open>replace\<close> method; the resulting
  \<^verbatim>\<open>TypeError\<close> is caught by the same \<^verbatim>\<open>catch\<close>, whose template literal converts the
  condition to a string.
\<close>

definition IfNode_execute ::
  "builtins \<Rightarrow> (string \<Rightarrow> string + jsval) \<Rightarrow> obj list \<Rightarrow> obj \<Rightarrow> error + obj list" where
  "IfNode_execute b js_eval inputData params =
     (let condition = get_prop_default params ''condition'' (JStr ''true'');
          data = first_or_empty inputData
      in case condition of
           JStr c \<Rightarrow>
             (case evaluableCondition b data c of
                Inl m \<Rightarrow> Inl (ConditionEvaluationError c m)
              | Inr expression \<Rightarrow>
                  (case js_eval expression of
                     Inl m \<Rightarrow> Inl (ConditionEvaluationError c m)
                   | Inr result \<Rightarrow>
                       Inr [[(''conditionResult'', JBool (truthy result)),
                             (''conditionExpression'', condition),
                             (''inputData'', JObj data),
                             (''outputPath'',
                                JStr (if truthy result then ''true'' else ''false''))]]))
         | _ \<Rightarrow>
             (case to_string condition of
                None \<Rightarrow> Inl PrimitiveConversionError
              | Some c \<Rightarrow>
                  Inl (ConditionEvaluationError c
                         (type_error_message ''condition'' ''replace'' condition))))"

subsection \<open>The earlier LogMessageNode (Mini N8N)\<close>

text \<open>
  \<^verbatim>\<open>Mini N8N/nodes/LogMessageNode.ts\<close> formats the message once per input item and prints
  it.  Its regular expression is \<^verbatim>\<open>/\{\{(.*?)\}\}/\<close>: two opening braces, the shortest
  (possibly empty) text without a line break up to the next two closing braces.
\<close>

fun find_close :: "string \<Rightarrow> (string \<times> string) option" where
  "find_close (c # d # cs) =
     (if c = CHR ''}'' \<and> d = CHR ''}'' then Some ([], cs)
      else case find_close (d # cs) of None \<Rightarrow> None | Some (k, r) \<Rightarrow> Some (c # k, r))"
| "find_close cs = None"

definition match_placeholder_lazy :: "string \<Rightarrow> (string \<times> string) option" where
  "match_placeholder_lazy s =
     (if take 2 s = ''{{'' then
        (case find_close (drop 2 s) of
           None \<Rightarrow> None
         | Some (k, r) \<Rightarrow> if CHR 0x0A \<in> set k \<or> CHR 0x0D \<in> set k then None else Some (k, r))
      else None)"

function replace_placeholders_lazy ::
  "(string \<Rightarrow> string + string) \<Rightarrow> string \<Rightarrow> string + string" where
  "replace_placeholders_lazy f [] = Inr []"
| "replace_placeholders_lazy f (c # cs) =
     (case match_placeholder_lazy (c # cs) of
        Some (k, rest) \<Rightarrow>
          (case f k of Inl e \<Rightarrow> Inl e | Inr t \<Rightarrow> prepend t (replace_placeholders_lazy f rest))
      | None \<Rightarrow> prepend [c] (replace_placeholders_lazy f cs))"
  by pat_completeness auto
termination
proof -
  have close: "length r < length s" if "find_close s = Some (k, r)" for s k r
    using that
    by (induction s arbitrary: k r rule: find_close.induct)
       (auto split: if_splits option.splits)
  have shorter: "length rest < length s" if "match_placeholder_lazy s = Some (k, rest)" for s k rest
    using that
    by (auto simp: match_placeholder_lazy_def split: if_splits option.splits dest!: close)
  show ?thesis
    by (relation "measure (\<lambda>(f, s). length s)") (auto dest: shorter)
qed

text \<open>\<^verbatim>\<open>(o, i) => (o ? o[i] : undefined)\<close>; a host value is an object or a function and
  hence truthy.\<close>

definition truthy_access :: "builtins \<Rightarrow> walked \<Rightarrow> string \<Rightarrow> string + walked" where
  "truthy_access b w i =
     (case w of
        Data v \<Rightarrow> if truthy v then member_access b v i else Inr (Data JUndefined)
      | Host h \<Rightarrow> host_member b h i)"

text \<open>\<^verbatim>\<open>key.split('.').reduce((o, i) => (o ? o[i] : undefined), item)\<close>.\<close>

definition walk_truthy :: "builtins \<Rightarrow> obj \<Rightarrow> string \<Rightarrow> string + walked" where
  "walk_truthy b item key =
     walk (truthy_access b) (split_on CHR ''.'' key) (Data (JObj item))"

text \<open>The callback: \<^verbatim>\<open>value !== undefined ? value : `{{${key}}}`\<close>, converted to a string
  by \<^verbatim>\<open>replace\<close>.\<close>

definition formatted_at :: "builtins \<Rightarrow> obj \<Rightarrow> string \<Rightarrow> string + string" where
  "formatted_at b item key =
     (case walk_truthy b item key of
        Inl e \<Rightarrow> Inl e
      | Inr (Data v) \<Rightarrow>
          if v \<noteq> JUndefined
          then (case to_string v of None \<Rightarrow> Inl cannot_convert | Some t \<Rightarrow> Inr t)
          else Inr (''{{'' @ key @ ''}}'')
      | Inr (Host h) \<Rightarrow> host_text b h)"

definition formattedMessage :: "builtins \<Rightarrow> string \<Rightarrow> obj \<Rightarrow> string + string" where
  "formattedMessage b message item = replace_placeholders_lazy (formatted_at b item) message"

text \<open>The loop over the input items: the lines printed by \<^verbatim>\<open>console.log\<close>, and the
  message of the error that ended the loop, if one did.\<close>

fun log_items :: "builtins \<Rightarrow> string \<Rightarrow> obj list \<Rightarrow> string list \<times> string option" where
  "log_items b m [] = ([], None)"
| "log_items b m (item # items) =
     (case formattedMessage b m item of
        Inl e \<Rightarrow> ([], Some e)
      | Inr t \<Rightarrow> (case log_items b m items of (ls, r) \<Rightarrow> ((''LOG: '' @ t) # ls, r)))"

text \<open>The result is the lines printed by \<^verbatim>\<open>console.log\<close> and the returned list (the
  input itself), or the message of the error thrown: one of the formatting, or the
  \<^verbatim>\<open>TypeError\<close> of calling \<^verbatim>\<open>replace\<close> on a message that is not a string.\<close>

definition MiniN8N_LogMessageNode_execute ::
  "builtins \<Rightarrow> obj list \<Rightarrow> obj \<Rightarrow> string list \<times> (string + obj list)" where
  "MiniN8N_LogMessageNode_execute b input params =
     (if \<not> truthy (get_prop params ''message'') then ([], Inr input)
      else case get_prop params ''message'' of
             JStr m \<Rightarrow>
               (case log_items b m input of
                  (ls, None) \<Rightarrow> (ls, Inr input)
                | (ls, Some e) \<Rightarrow> (ls, Inl e))
           | v \<Rightarrow> (if input = [] then ([], Inr input)
                   else ([], Inl (type_error_message ''params.message'' ''replace'' v))))"
section \<open>Workflows and the scheduler\<close>

text \<open>
  \<^verbatim>\<open>WorkflowNode\<close>, \<^verbatim>\<open>Connection\<close> and \<^verbatim>\<open>Workflow\<close> of \<^verbatim>\<open>shared/schema.ts\<close>.  Field names
  carry a prefix where the source name is taken in HOL (\<^verbatim>\<open>id\<close>, \<^verbatim>\<open>from\<close>, \<^verbatim>\<open>to\<close>); the
  display-only fields \<^verbatim>\<open>position\<close> and \<^verbatim>\<open>status\<close> of a node are left out.
\<close>

record workflow_node =
  node_id :: string
  node_type :: string
  node_params :: "obj option"

record connection =
  conn_id :: string
  conn_from :: string
  conn_to :: string

record workflow =
  wf_id :: string
  wf_name :: string
  nodes :: "workflow_node list"
  connections :: "connection list"

subsection \<open>getExecutionOrder\<close>

text \<open>
  The two \<^verbatim>\<open>Map\<close>s of \<^verbatim>\<open>getExecutionOrder\<close> are association lists in insertion order;
  \<^verbatim>\<open>Map.set\<close> is \<^const>\<open>AList.update\<close> (an existing key keeps its place, a new key goes to
  the end), \<^verbatim>\<open>Map.get\<close> is \<^const>\<open>map_of\<close>.  The state is the pair \<open>(inDegree, graph)\<close>.
\<close>

type_synonym degrees = "(string \<times> int) list"
type_synonym adjacency = "(string \<times> string list) list"

text \<open>The first loop: every node gets in-degree 0 and no successors.\<close>

definition initGraph :: "workflow_node list \<Rightarrow> degrees \<times> adjacency" where
  "initGraph ns =
     fold (\<lambda>n (inDegree, graph).
             (AList.update (node_id n) 0 inDegree, AList.update (node_id n) [] graph))
       ns ([], [])"

text \<open>The second loop: a connection with an endpoint that is no key of \<open>graph\<close> throws;
  otherwise the target is pushed to the source's successors and its in-degree grows.\<close>

fun buildGraph :: "connection list \<Rightarrow> degrees \<times> adjacency \<Rightarrow> error + degrees \<times> adjacency" where
  "buildGraph [] st = Inr st"
| "buildGraph (c # cs) (inDegree, graph) =
     (if map_of graph (conn_from c) = None \<or> map_of graph (conn_to c) = None
      then Inl (InvalidConnection (conn_from c) (conn_to c))
      else buildGraph cs
             (AList.update (conn_to c)
                ((case map_of inDegree (conn_to c) of None \<Rightarrow> 0 | Some d \<Rightarrow> d) + 1) inDegree,
              AList.update (conn_from c)
                ((case map_of graph (conn_from c) of None \<Rightarrow> [] | Some ts \<Rightarrow> ts) @ [conn_to c])
                graph))"

text \<open>The queue is seeded with the keys of in-degree zero, in the order of the map's
  entries.\<close>

definition seeds :: "degrees \<Rightarrow> string list" where
  "seeds inDegree = map fst (filter (\<lambda>(nodeId, degree). degree = 0) inDegree)"

text \<open>
  The inner loop over the neighbours of the dequeued node.  A neighbour that is no key of
  \<open>inDegree\<close> would get the in-degree \<^verbatim>\<open>NaN\<close>, which never equals zero: nothing is
  enqueued for it, now or later, and the map is left as it is.
\<close>

fun visitNeighbors :: "string list \<Rightarrow> degrees \<times> string list \<Rightarrow> degrees \<times> string list" where
  "visitNeighbors [] st = st"
| "visitNeighbors (neighborId # rest) (inDegree, queue) =
     (case map_of inDegree neighborId of
        None \<Rightarrow> visitNeighbors rest (inDegree, queue)
      | Some d \<Rightarrow>
          visitNeighbors rest
            (AList.update neighborId (d - 1) inDegree,
             if d - 1 = 0 then queue @ [neighborId] else queue))"

text \<open>The termination measure of the \<^verbatim>\<open>while\<close> loop: twice the sum of the positive
  in-degrees plus the length of the queue.\<close>

definition positive_sum :: "degrees \<Rightarrow> nat" where
  "positive_sum inDegree = sum_list (map (\<lambda>(k, d). nat d) inDegree)"

text \<open>The \<^verbatim>\<open>while (queue.length > 0)\<close> loop.\<close>

function kahnLoop :: "adjacency \<Rightarrow> degrees \<Rightarrow> string list \<Rightarrow> string list \<Rightarrow> string list" where
  "kahnLoop graph inDegree [] executionOrder = executionOrder"
| "kahnLoop graph inDegree (nodeId # queue) executionOrder =
     (case visitNeighbors (case map_of graph nodeId of None \<Rightarrow> [] | Some ts \<Rightarrow> ts)
             (inDegree, queue) of
        (inDegree', queue') \<Rightarrow> kahnLoop graph inDegree' queue' (executionOrder @ [nodeId]))"
  by pat_completeness auto
termination
proof -
  have upd: "positive_sum (AList.update k d' inDegree) + nat d = positive_sum inDegree + nat d'"
    if "map_of inDegree k = Some d" for inDegree k d d'
    using that by (induction inDegree) (auto simp: positive_sum_def split: if_splits)
  have visit: "2 * positive_sum inDegree' + length queue' \<le> 2 * positive_sum inDegree + length queue"
    if "visitNeighbors ns (inDegree, queue) = (inDegree', queue')"
    for ns inDegree queue inDegree' queue'
    using that
  proof (induction ns arbitrary: inDegree queue)
    case Nil
    then show ?case by simp
  next
    case (Cons n ns)
    show ?case
    proof (cases "map_of inDegree n")
      case None
      with Cons show ?thesis by simp
    next
      case (Some d)
      let ?deg = "AList.update n (d - 1) inDegree"
      let ?q = "if d - 1 = 0 then queue @ [n] else queue"
      from Cons.prems Some have "visitNeighbors ns (?deg, ?q) = (inDegree', queue')"
        by simp
      from Cons.IH [OF this]
      have "2 * positive_sum inDegree' + length queue' \<le> 2 * positive_sum ?deg + length ?q" .
      moreover have "positive_sum ?deg + nat d = positive_sum inDegree + nat (d - 1)"
        by (rule upd [OF Some])
      ultimately show ?thesis
        by (auto split: if_splits)
    qed
  qed
  show ?thesis
    by (relation "measure (\<lambda>(graph, inDegree, queue, executionOrder).
                     2 * positive_sum inDegree + length queue)")
       (auto dest!: visit [OF sym])
qed

definition getExecutionOrder :: "workflow_node list \<Rightarrow> connection list \<Rightarrow> error + string list" where
  "getExecutionOrder ns cs =
     (case buildGraph cs (initGraph ns) of
        Inl e \<Rightarrow> Inl e
      | Inr (inDegree, graph) \<Rightarrow>
          (let executionOrder = kahnLoop graph inDegree (seeds inDegree) []
           in if length executionOrder \<noteq> length ns then Inl CycleDetected
              else Inr executionOrder))"

text \<open>The directed graph of a connection list, for stating properties of the order.\<close>

definition edges :: "connection list \<Rightarrow> (string \<times> string) list" where
  "edges cs = map (\<lambda>c. (conn_from c, conn_to c)) cs"

section \<open>Executions, storage and the run loop\<close>

subsection \<open>The execution record and MemStorage\<close>

datatype exec_status = Running | Completed | Failed | Stopped

datatype log_level = Info | ErrorLevel | Warn

record log_entry =
  timestamp :: string
  level :: log_level
  message :: string
  entry_nodeId :: "string option"

text \<open>\<^verbatim>\<open>Execution\<close> of \<^verbatim>\<open>shared/schema.ts\<close>; optional fields are options, the \<^verbatim>\<open>results\<close>
  object is an association list from node ids to result lists.\<close>

record execution =
  exec_id :: string
  workflowId :: string
  status :: exec_status
  startedAt :: string
  completedAt :: "string option"
  currentNodeId :: "string option"
  logs :: "log_entry list"
  results :: "(string \<times> obj list) list option"

text \<open>
  \<^verbatim>\<open>Partial<Execution>\<close>, as far as the engine and the stop route use it: \<open>None\<close> is an
  absent key.  \<^verbatim>\<open>currentNodeId: undefined\<close> is a present key with the value
  \<^verbatim>\<open>undefined\<close>, that is \<open>Some None\<close>.
\<close>

record patch =
  p_status :: "exec_status option"
  p_completedAt :: "string option"
  p_currentNodeId :: "string option option"
  p_logs :: "log_entry list option"
  p_results :: "(string \<times> obj list) list option"

definition no_change :: patch where
  "no_change = \<lparr>p_status = None, p_completedAt = None, p_currentNodeId = None,
                 p_logs = None, p_results = None\<rparr>"

text \<open>\<^verbatim>\<open>{ ...existing, ...updateData }\<close>.\<close>

definition merge :: "execution \<Rightarrow> patch \<Rightarrow> execution" where
  "merge existing updateData =
     existing
       \<lparr>status := (case p_status updateData of None \<Rightarrow> status existing | Some s \<Rightarrow> s),
        completedAt := (case p_completedAt updateData of
                          None \<Rightarrow> completedAt existing | Some t \<Rightarrow> Some t),
        currentNodeId := (case p_currentNodeId updateData of
                            None \<Rightarrow> currentNodeId existing | Some c \<Rightarrow> c),
        logs := (case p_logs updateData of None \<Rightarrow> logs existing | Some ls \<Rightarrow> ls),
        results := (case p_results updateData of
                      None \<Rightarrow> results existing | Some r \<Rightarrow> Some r)\<rparr>"

text \<open>
  What happens during a run is recorded in a trace: the invocation of a node's executor
  with its input, its successful return, the error caught for a node, and every status
  written to a stored execution.  The trace is not part of the source; it makes
  statements about the order of these events possible.
\<close>

datatype event =
    Invoked string "obj list"
  | Succeeded string "obj list"
  | NodeError string error
  | StatusUpdate string exec_status

text \<open>The state: the \<^verbatim>\<open>executions\<close> map of \<^verbatim>\<open>MemStorage\<close>, the number of clock readings so
  far, and the trace.\<close>

record world =
  executions :: "string \<rightharpoonup> execution"
  ticks :: nat
  trace :: "event list"

text \<open>
  The environment of a run: the clock (its \<open>n\<close>-th reading), the HTTP transport and the
  stop requests that the server handles while an HTTP call is awaited (both indexed by
  the length of the trace at the call), the expression evaluator and the built-in objects
  of the runtime.
\<close>

record env =
  env_clock :: "nat \<Rightarrow> string"
  env_axios :: "nat \<Rightarrow> request \<Rightarrow> axios_outcome"
  env_eval :: "string \<Rightarrow> string + jsval"
  env_builtins :: builtins
  env_stops :: "nat \<Rightarrow> string list"

text \<open>\<^verbatim>\<open>new Date().toISOString()\<close>.\<close>

definition readClock :: "env \<Rightarrow> world \<Rightarrow> string \<times> world" where
  "readClock en w = (env_clock en (ticks w), w\<lparr>ticks := Suc (ticks w)\<rparr>)"

definition getExecution :: "string \<Rightarrow> world \<Rightarrow> execution option" where
  "getExecution i w = executions w i"

definition updateExecution :: "string \<Rightarrow> patch \<Rightarrow> world \<Rightarrow> world" where
  "updateExecution i updateData w =
     (case executions w i of
        None \<Rightarrow> w
      | Some existing \<Rightarrow>
          w\<lparr>executions := (executions w)(i \<mapsto> merge existing updateData),
            trace := trace w @ (case p_status updateData of
                                  None \<Rightarrow> [] | Some s \<Rightarrow> [StatusUpdate i s])\<rparr>)"

text \<open>\<^verbatim>\<open>createExecution\<close> with the fresh identifier \<open>i\<close> in place of \<^verbatim>\<open>randomUUID()\<close>, as the
  execute route calls it.\<close>

definition createExecution :: "env \<Rightarrow> string \<Rightarrow> string \<Rightarrow> exec_status \<Rightarrow> world \<Rightarrow> world" where
  "createExecution en i wid st w =
     (case readClock en w of
        (t, w1) \<Rightarrow>
          w1\<lparr>executions := (executions w1)(i \<mapsto>
               \<lparr>exec_id = i, workflowId = wid, status = st, startedAt = t,
                completedAt = None, currentNodeId = None, logs = [], results = None\<rparr>)\<rparr>)"

text \<open>The stop route: \<^verbatim>\<open>updateExecution(id, {status: "stopped", completedAt: now})\<close>.\<close>

definition stopExecution :: "env \<Rightarrow> string \<Rightarrow> world \<Rightarrow> world" where
  "stopExecution en i w =
     (case readClock en w of
        (t, w1) \<Rightarrow>
          updateExecution i (no_change\<lparr>p_status := Some Stopped, p_completedAt := Some t\<rparr>) w1)"

subsection \<open>The engine\<close>

definition addLog ::
  "env \<Rightarrow> string \<Rightarrow> log_level \<Rightarrow> string \<Rightarrow> string option \<Rightarrow> world \<Rightarrow> world" where
  "addLog en executionId lvl msg nid w =
     (case getExecution executionId w of
        None \<Rightarrow> w
      | Some execution \<Rightarrow>
          (case readClock en w of
             (t, w1) \<Rightarrow>
               updateExecution executionId
                 (no_change\<lparr>p_logs := Some (logs execution @
                    [\<lparr>timestamp = t, level = lvl, message = msg, entry_nodeId = nid\<rparr>])\<rparr>) w1))"

text \<open>The node registry and the executors behind it.\<close>

datatype node_class = StartNode | FetchApiNode | LogMessageNode | IfNode

definition nodeRegistry :: "string \<Rightarrow> node_class option" where
  "nodeRegistry = map_of
     [(''StartNode'', StartNode), (''FetchApiNode'', FetchApiNode),
      (''LogMessageNode'', LogMessageNode), (''IfNode'', IfNode)]"

text \<open>
  \<^verbatim>\<open>node.execute(inputData, params)\<close>.  With \<^verbatim>\<open>MemStorage\<close> the only point at which the run
  loop gives control back to the server is the awaited HTTP call of a \<^verbatim>\<open>FetchApiNode\<close>;
  the stop requests handled meanwhile take effect before the executor's result is seen.
\<close>

fun execute ::
  "env \<Rightarrow> node_class \<Rightarrow> obj list \<Rightarrow> obj \<Rightarrow> world \<Rightarrow> (error + obj list) \<times> world" where
  "execute en StartNode inputData params w =
     (case readClock en w of (t, w1) \<Rightarrow> (StartNode_execute t inputData params, w1))"
| "execute en LogMessageNode inputData params w =
     (case readClock en w of (t, w1) \<Rightarrow> (LogMessageNode_execute t inputData params, w1))"
| "execute en IfNode inputData params w =
     (IfNode_execute (env_builtins en) (env_eval en) inputData params, w)"
| "execute en FetchApiNode inputData params w =
     (case FetchApiNode_execute (env_axios en (length (trace w))) inputData params of
        (rqs, r) \<Rightarrow>
          (r, if rqs = [] then w
              else fold (stopExecution en) (env_stops en (length (trace w))) w))"

text \<open>The input of a node: the stored results of the sources of its incoming connections,
  in connection order, or one empty record if it has no incoming connection.\<close>

definition gatherInput :: "connection list \<Rightarrow> (string \<times> obj list) list \<Rightarrow> string \<Rightarrow> obj list" where
  "gatherInput conns executionResults nodeId =
     (let inputConnections = filter (\<lambda>c. conn_to c = nodeId) conns
      in if length inputConnections > 0
         then fold (\<lambda>conn inputData.
                      case map_of executionResults (conn_from conn) of
                        None \<Rightarrow> inputData
                      | Some r \<Rightarrow> inputData @ r)
                inputConnections []
         else [[]])"

text \<open>The inner \<^verbatim>\<open>try\<close> block up to the executor's return.\<close>

definition tryNode ::
  "env \<Rightarrow> workflow \<Rightarrow> workflow_node \<Rightarrow> (string \<times> obj list) list \<Rightarrow> world
     \<Rightarrow> (error + obj list) \<times> world" where
  "tryNode en workflow nodeConfig executionResults w =
     (case nodeRegistry (node_type nodeConfig) of
        None \<Rightarrow> (Inl (UnregisteredNodeType (node_type nodeConfig)), w)
      | Some node \<Rightarrow>
          (let inputData = gatherInput (connections workflow) executionResults (node_id nodeConfig);
               w1 = w\<lparr>trace := trace w @ [Invoked (node_id nodeConfig) inputData]\<rparr>
           in case execute en node inputData
                     (case node_params nodeConfig of None \<Rightarrow> [] | Some ps \<Rightarrow> ps) w1 of
                (Inl e, w2) \<Rightarrow> (Inl e, w2)
              | (Inr outputData, w2) \<Rightarrow>
                  (Inr outputData,
                   w2\<lparr>trace := trace w2 @ [Succeeded (node_id nodeConfig) outputData]\<rparr>)))"

definition pretty :: "obj list \<Rightarrow> string" where
  "pretty outputData =
     (case stringify_indent [] (JArr (map JObj outputData)) of None \<Rightarrow> ''undefined'' | Some t \<Rightarrow> t)"

definition failed_patch :: "string \<Rightarrow> patch" where
  "failed_patch t =
     no_change\<lparr>p_status := Some Failed, p_completedAt := Some t, p_currentNodeId := Some None\<rparr>"

text \<open>How the \<^verbatim>\<open>for\<close> loop over the execution order ends: it runs to its end with the
  collected results, it returns after a node failed, or it throws to the outer
  \<^verbatim>\<open>catch\<close>.\<close>

datatype loop_end =
    Finished "(string \<times> obj list) list"
  | Returned
  | Thrown error

fun runNodes ::
  "env \<Rightarrow> workflow \<Rightarrow> string \<Rightarrow> string list \<Rightarrow> (string \<times> obj list) list \<Rightarrow> world
     \<Rightarrow> loop_end \<times> world" where
  "runNodes en workflow executionId [] executionResults w = (Finished executionResults, w)"
| "runNodes en workflow executionId (nodeId # rest) executionResults w =
     (let w1 = updateExecution executionId (no_change\<lparr>p_currentNodeId := Some (Some nodeId)\<rparr>) w
      in case find (\<lambda>n. node_id n = nodeId) (nodes workflow) of
           None \<Rightarrow> (Thrown (NodeConfigNotFound nodeId), w1)
         | Some nodeConfig \<Rightarrow>
             (let w2 = addLog en executionId Info
                         (''Executing Node: '' @ node_id nodeConfig @ '' (''
                            @ node_type nodeConfig @ '')'') (Some nodeId) w1
              in case tryNode en workflow nodeConfig executionResults w2 of
                   (Inr outputData, w3) \<Rightarrow>
                     runNodes en workflow executionId rest
                       (AList.update (node_id nodeConfig) outputData executionResults)
                       (addLog en executionId Info (''Output: '' @ pretty outputData)
                          (Some nodeId) w3)
                 | (Inl err, w3) \<Rightarrow>
                     (let w4 = addLog en executionId ErrorLevel
                                 (''ERROR: '' @ error_message err) (Some nodeId)
                                 (w3\<lparr>trace := trace w3 @ [NodeError nodeId err]\<rparr>)
                      in case readClock en w4 of
                           (t, w5) \<Rightarrow> (Returned, updateExecution executionId (failed_patch t) w5))))"

text \<open>The outer \<^verbatim>\<open>catch\<close>.\<close>

definition outerCatch :: "env \<Rightarrow> string \<Rightarrow> error \<Rightarrow> world \<Rightarrow> world" where
  "outerCatch en executionId err w =
     (let w1 = addLog en executionId ErrorLevel
                 (''Workflow execution failed: '' @ error_message err) None w
      in case readClock en w1 of (t, w2) \<Rightarrow> updateExecution executionId (failed_patch t) w2)"

definition executeWorkflow :: "env \<Rightarrow> workflow \<Rightarrow> string \<Rightarrow> world \<Rightarrow> world" where
  "executeWorkflow en workflow executionId w =
     (let w1 = addLog en executionId Info ''--- Workflow Starting ---'' None w;
          w2 = addLog en executionId Info (''Executing workflow: '' @ wf_name workflow) None w1
      in case getExecutionOrder (nodes workflow) (connections workflow) of
           Inl err \<Rightarrow> outerCatch en executionId err w2
         | Inr executionOrder \<Rightarrow>
             (let w3 = addLog en executionId Info
                         (''Execution order: '' @ join '' -> '' executionOrder) None w2
              in case runNodes en workflow executionId executionOrder [] w3 of
                   (Thrown err, w4) \<Rightarrow> outerCatch en executionId err w4
                 | (Returned, w4) \<Rightarrow> w4
                 | (Finished executionResults, w4) \<Rightarrow>
                     (let w5 = addLog en executionId Info
                                 ''--- Workflow Finished Successfully ---'' None w4
                      in case readClock en w5 of
                           (t, w6) \<Rightarrow>
                             updateExecution executionId
                               (no_change\<lparr>p_status := Some Completed, p_completedAt := Some t,
                                  p_currentNodeId := Some None,
                                  p_results := Some executionResults\<rparr>) w6)))"

subsection \<open>Reading a trace\<close>

text \<open>The results stored after a sequence of events, starting from \<open>acc\<close>: every
  \<open>Succeeded\<close> event stores the node's output under its id.\<close>

definition storedResults :: "(string \<times> obj list) list \<Rightarrow> event list \<Rightarrow> (string \<times> obj list) list" where
  "storedResults acc evs =
     fold (\<lambda>ev r. case ev of Succeeded n out \<Rightarrow> AList.update n out r | _ \<Rightarrow> r) evs acc"

text \<open>The input a node is expected to get from the stored results: the concatenation of
  the result lists of the sources of its incoming connections, or one empty record.\<close>

definition expectedInput :: "connection list \<Rightarrow> (string \<times> obj list) list \<Rightarrow> string \<Rightarrow> obj list" where
  "expectedInput conns stored n =
     (if filter (\<lambda>c. conn_to c = n) conns = [] then [[]]
      else concat (map (\<lambda>c. case map_of stored (conn_from c) of None \<Rightarrow> [] | Some r \<Rightarrow> r)
                     (filter (\<lambda>c. conn_to c = n) conns)))"

text \<open>
  The status rule of the specification, read on a trace: once a terminal status has been
  written to the execution \<open>i\<close>, no executor is invoked and no status is written to \<open>i\<close>
  any more.
\<close>

fun after_terminal :: "string \<Rightarrow> event \<Rightarrow> bool" where
  "after_terminal i (Invoked n inputData) = False"
| "after_terminal i (StatusUpdate j s) = (j \<noteq> i)"
| "after_terminal i ev = True"

fun terminal_respected :: "string \<Rightarrow> event list \<Rightarrow> bool" where
  "terminal_respected i [] = True"
| "terminal_respected i (StatusUpdate j s # evs) =
     (if j = i \<and> s \<noteq> Running then list_all (after_terminal i) evs
      else terminal_respected i evs)"
| "terminal_respected i (ev # evs) = terminal_respected i evs"

section \<open>Notions for stating and proving the properties\<close>

subsection \<open>Orders and the scheduler's loop\<close>

text \<open>\<open>precedes a b xs\<close>: after the first occurrence of \<open>a\<close> in \<open>xs\<close> there is a \<open>b\<close>.\<close>

fun precedes :: "'a \<Rightarrow> 'a \<Rightarrow> 'a list \<Rightarrow> bool" where
  "precedes a b [] = False"
| "precedes a b (x # xs) = (if x = a then b \<in> set xs else precedes a b xs)"

text \<open>The number of connections into \<open>v\<close> whose source is not in \<open>U\<close>.\<close>

definition pending :: "string set \<Rightarrow> (string \<times> string) list \<Rightarrow> string \<Rightarrow> nat" where
  "pending U E v = length (filter (\<lambda>e. snd e = v \<and> fst e \<notin> U) E)"

text \<open>The adjacency map holds, for every node, the targets of its outgoing connections;
  the invariant of the \<^verbatim>\<open>while\<close> loop relates the in-degree map, the queue and the order.\<close>

definition graph_ok :: "string set \<Rightarrow> (string \<times> string) list \<Rightarrow> adjacency \<Rightarrow> bool" where
  "graph_ok V E g \<longleftrightarrow>
     set E \<subseteq> V \<times> V \<and> (\<forall>v\<in>V. map_of g v = Some (map snd (filter (\<lambda>e. fst e = v) E)))"

definition kahn_inv ::
  "string set \<Rightarrow> (string \<times> string) list \<Rightarrow> degrees \<Rightarrow> string list \<Rightarrow> string list \<Rightarrow> bool" where
  "kahn_inv V E deg q order \<longleftrightarrow>
     distinct (order @ q) \<and> set (order @ q) \<subseteq> V
     \<and> (\<forall>v\<in>V. map_of deg v = Some (int (pending (set order) E v)))
     \<and> (\<forall>v\<in>V. v \<in> set (order @ q) \<longleftrightarrow> pending (set order) E v = 0)
     \<and> (\<forall>e\<in>set E. snd e \<in> set (order @ q) \<longrightarrow> precedes (fst e) (snd e) (order @ q))"

subsection \<open>Traces and worlds\<close>

text \<open>A world \<open>w'\<close> continues \<open>w\<close> for the execution \<open>i\<close> with the events \<open>evs\<close>: the trace
  grew by \<open>evs\<close>, the execution neither appeared nor vanished, its log only grew and its
  results are untouched.\<close>

definition continues :: "string \<Rightarrow> world \<Rightarrow> world \<Rightarrow> event list \<Rightarrow> bool" where
  "continues i w w' evs \<longleftrightarrow>
     trace w' = trace w @ evs
     \<and> (executions w i = None \<longrightarrow> executions w' i = None)
     \<and> (\<forall>e. executions w i = Some e \<longrightarrow>
           (\<exists>e'. executions w' i = Some e' \<and> prefix (logs e) (logs e') \<and> results e' = results e))"

text \<open>Events that only record stop requests.\<close>

definition stops_only :: "event list \<Rightarrow> bool" where
  "stops_only evs \<longleftrightarrow> (\<forall>ev\<in>set evs. \<exists>j. ev = StatusUpdate j Stopped)"

text \<open>Every invocation in a sequence of events has the expected input for the results
  stored before it.\<close>

fun inputs_ok :: "connection list \<Rightarrow> (string \<times> obj list) list \<Rightarrow> event list \<Rightarrow> bool" where
  "inputs_ok conns stored [] = True"
| "inputs_ok conns stored (Invoked n inputData # evs) =
     (inputData = expectedInput conns stored n \<and> inputs_ok conns stored evs)"
| "inputs_ok conns stored (Succeeded n out # evs) =
     inputs_ok conns (AList.update n out stored) evs"
| "inputs_ok conns stored (ev # evs) = inputs_ok conns stored evs"

text \<open>Events among which no node failed and no status other than \<open>Stopped\<close> was
  written.\<close>

fun calm_event :: "event \<Rightarrow> bool" where
  "calm_event (NodeError n e) = False"
| "calm_event (StatusUpdate j s) = (s = Stopped)"
| "calm_event ev = True"

definition calm :: "event list \<Rightarrow> bool" where
  "calm evs = list_all calm_event evs"

text \<open>The end of a run in which a node failed: after calm events the node's error and, if
  the execution is stored, the status \<open>Failed\<close>; the stored execution then has this
  status, no current node, and the error entry as its last log entry.\<close>

definition node_failed_end :: "string \<Rightarrow> world \<Rightarrow> world \<Rightarrow> event list \<Rightarrow> bool" where
  "node_failed_end i w w' evs \<longleftrightarrow>
     (\<exists>pre n err. calm pre
        \<and> evs = pre @ NodeError n err #
                  (case executions w i of None \<Rightarrow> [] | Some e \<Rightarrow> [StatusUpdate i Failed])
        \<and> (\<forall>e. executions w i = Some e \<longrightarrow>
              (\<exists>e'. executions w' i = Some e' \<and> status e' = Failed \<and> currentNodeId e' = None
                 \<and> (\<exists>ls t. logs e' = ls @ [\<lparr>timestamp = t, level = ErrorLevel,
                                message = ''ERROR: '' @ error_message err,
                                entry_nodeId = Some n\<rparr>]))))"

text \<open>The two log entries written before the order is computed.\<close>

definition started :: "env \<Rightarrow> workflow \<Rightarrow> string \<Rightarrow> world \<Rightarrow> world" where
  "started en workflow i w =
     addLog en i Info (''Executing workflow: '' @ wf_name workflow) None
       (addLog en i Info ''--- Workflow Starting ---'' None w)"

text \<open>How a run ends for a stored execution \<open>e\<close>, with the final record \<open>e'\<close> and the
  events \<open>evs\<close> of the run: completed with the stored results, failed by an error thrown
  to the outer \<^verbatim>\<open>catch\<close>, or failed at a node.\<close>

definition run_end :: "string \<Rightarrow> execution \<Rightarrow> execution \<Rightarrow> event list \<Rightarrow> bool" where
  "run_end i e e' evs \<longleftrightarrow>
     (\<exists>pre. calm pre \<and> evs = pre @ [StatusUpdate i Completed] \<and> status e' = Completed
        \<and> results e' = Some (storedResults [] pre))
     \<or> (\<exists>pre. calm pre \<and> evs = pre @ [StatusUpdate i Failed] \<and> status e' = Failed
        \<and> results e' = results e \<and> currentNodeId e' = None)
     \<or> (\<exists>pre n err. calm pre \<and> evs = pre @ [NodeError n err, StatusUpdate i Failed]
        \<and> status e' = Failed \<and> results e' = results e \<and> currentNodeId e' = None
        \<and> (\<exists>ls t. logs e' = ls @ [\<lparr>timestamp = t, level = ErrorLevel,
                       message = ''ERROR: '' @ error_message err, entry_nodeId = Some n\<rparr>]))"

subsection \<open>Texts with placeholders\<close>

text \<open>
  A condition or message seen as a list of pieces: literal text, and holes
  \<^verbatim>\<open>{{path}}\<close>.  A literal text is inert when no match of either regular expression
  can begin in it: it has no two opening braces in a row and none at its end.
\<close>

datatype piece = Text string | Hole string

fun piece_source :: "piece \<Rightarrow> string" where
  "piece_source (Text t) = t"
| "piece_source (Hole p) = ''{{'' @ p @ ''}}''"

definition source_text :: "piece list \<Rightarrow> string" where
  "source_text ps = concat (map piece_source ps)"

fun inert :: "string \<Rightarrow> bool" where
  "inert [] = True"
| "inert [c] = (c \<noteq> CHR ''{'')"
| "inert (c # d # cs) = ((c \<noteq> CHR ''{'' \<or> d \<noteq> CHR ''{'') \<and> inert (d # cs))"

text \<open>The holes that \<^verbatim>\<open>/\{\{([^}]+)\}\}/\<close> matches as they stand have a non-empty path
  without a closing brace; those that \<^verbatim>\<open>/\{\{(.*?)\}\}/\<close> matches as they stand have a key
  without a closing brace or line break.\<close>

fun path_piece :: "piece \<Rightarrow> bool" where
  "path_piece (Text t) = inert t"
| "path_piece (Hole p) = (p \<noteq> [] \<and> CHR ''}'' \<notin> set p)"

fun key_piece :: "piece \<Rightarrow> bool" where
  "key_piece (Text t) = inert t"
| "key_piece (Hole k) = (CHR ''}'' \<notin> set k \<and> CHR 0x0A \<notin> set k \<and> CHR 0x0D \<notin> set k)"

text \<open>The pieces with every hole filled by \<open>f\<close>, up to the first hole at which \<open>f\<close>
  throws.\<close>

fun substitute :: "(string \<Rightarrow> string + string) \<Rightarrow> piece list \<Rightarrow> string + string" where
  "substitute f [] = Inr []"
| "substitute f (Text t # ps) = prepend t (substitute f ps)"
| "substitute f (Hole p # ps) =
     (case f p of Inl e \<Rightarrow> Inl e | Inr v \<Rightarrow> prepend v (substitute f ps))"

text \<open>Walking a list of keys into the fields of a record, in the words of the
  specification: the value at the end, or \<open>None\<close> if a segment is absent.\<close>

fun field_at :: "jsval \<Rightarrow> string list \<Rightarrow> jsval option" where
  "field_at v [] = Some v"
| "field_at (JObj kvs) (k # ks) = (case map_of kvs k of None \<Rightarrow> None | Some x \<Rightarrow> field_at x ks)"
| "field_at v (k # ks) = None"
section \<open>Concrete workflows and environments\<close>

text \<open>The sample workflow that \<^verbatim>\<open>MemStorage\<close> is initialised with.\<close>

definition sample_nodes :: "workflow_node list" where
  "sample_nodes =
     [\<lparr>node_id = ''start-node'', node_type = ''StartNode'', node_params = Some []\<rparr>,
      \<lparr>node_id = ''fetch-node'', node_type = ''FetchApiNode'',
        node_params = Some [(''method'', JStr ''GET''),
                            (''url'', JStr ''https://jsonplaceholder.typicode.com/users''),
                            (''headers'', JObj [])]\<rparr>,
      \<lparr>node_id = ''log-node'', node_type = ''LogMessageNode'',
        node_params = Some [(''message'', JStr ''API Response received'')]\<rparr>]"

definition sample_connections :: "connection list" where
  "sample_connections =
     [\<lparr>conn_id = ''conn-1'', conn_from = ''start-node'', conn_to = ''fetch-node''\<rparr>,
      \<lparr>conn_id = ''conn-2'', conn_from = ''fetch-node'', conn_to = ''log-node''\<rparr>]"

text \<open>Two transports: one answers every request with status 200, the other rejects every
  request with a response of status 500.\<close>

definition ok_transport :: "request \<Rightarrow> axios_outcome" where
  "ok_transport rq = Resolved 200 (JObj []) (JObj [(''ok'', JBool True)])"

definition failing_transport :: "request \<Rightarrow> axios_outcome" where
  "failing_transport rq =
     Rejected \<lparr>err_response = Some (500, ''Internal Server Error''), err_request = True,
               err_message = ''Request failed with status code 500''\<rparr>"

text \<open>A fragment of the standard built-in objects: every value inherits \<^verbatim>\<open>constructor\<close>,
  a function with a \<^verbatim>\<open>name\<close>; a function has no JSON text and is converted to its source
  text.\<close>

definition constructors_only :: builtins where
  "constructors_only =
     \<lparr>inherited = (\<lambda>v k.
        if k = ''constructor''
        then Inr (Host (case v of JObj kvs \<Rightarrow> ''Object'' | JArr xs \<Rightarrow> ''Array''
                          | JStr s \<Rightarrow> ''String'' | JBool t \<Rightarrow> ''Boolean'' | _ \<Rightarrow> ''Number''))
        else Inr (Data JUndefined)),
      host_member = (\<lambda>h k. if k = ''name'' then Inr (Data (JStr h)) else Inr (Data JUndefined)),
      host_json = (\<lambda>h. Inr None),
      host_text = (\<lambda>h. Inr (''function '' @ h @ ''() { [native code] }''))\<rparr>"

text \<open>A workflow of an HTTP step followed by a log step, the sample workflow as a whole,
  and environments with a constant clock: one in which nothing interferes, one in which
  a stop request for the execution arrives during every HTTP call, and one whose
  transport fails.\<close>

definition two_nodes :: workflow where
  "two_nodes =
     \<lparr>wf_id = ''w'', wf_name = ''two'',
      nodes = [\<lparr>node_id = ''f'', node_type = ''FetchApiNode'',
                node_params = Some [(''url'', JStr ''u'')]\<rparr>,
               \<lparr>node_id = ''l'', node_type = ''LogMessageNode'', node_params = None\<rparr>],
      connections = [\<lparr>conn_id = ''c'', conn_from = ''f'', conn_to = ''l''\<rparr>]\<rparr>"

definition quiet_env :: env where
  "quiet_env =
     \<lparr>env_clock = (\<lambda>n. ''T''), env_axios = (\<lambda>k. ok_transport),
      env_eval = (\<lambda>s. Inl ''not available''), env_builtins = constructors_only,
      env_stops = (\<lambda>k. [])\<rparr>"

definition stopping_env :: env where
  "stopping_env = quiet_env\<lparr>env_stops := (\<lambda>k. [''e''])\<rparr>"

definition failing_env :: env where
  "failing_env = quiet_env\<lparr>env_axios := (\<lambda>k. failing_transport)\<rparr>"

definition fresh_world :: world where
  "fresh_world =
     createExecution quiet_env ''e'' ''w'' Running \<lparr>executions = Map.empty, ticks = 0, trace = []\<rparr>"

definition sample_workflow :: workflow where
  "sample_workflow =
     \<lparr>wf_id = ''sample-workflow-1'', wf_name = ''My First Workflow'',
      nodes = sample_nodes, connections = sample_connections\<rparr>"

text \<open>A cycle of two nodes, and a self-loop together with a connection to an unknown
  node.\<close>

definition two_cycle :: workflow where
  "two_cycle =
     \<lparr>wf_id = ''w'', wf_name = ''cycle'',
      nodes = [\<lparr>node_id = ''a'', node_type = ''StartNode'', node_params = None\<rparr>,
               \<lparr>node_id = ''b'', node_type = ''LogMessageNode'', node_params = None\<rparr>],
      connections = [\<lparr>conn_id = ''1'', conn_from = ''a'', conn_to = ''b''\<rparr>,
                     \<lparr>conn_id = ''2'', conn_from = ''b'', conn_to = ''a''\<rparr>]\<rparr>"

definition loop_and_dangling :: workflow where
  "loop_and_dangling =
     \<lparr>wf_id = ''w'', wf_name = ''dangling'',
      nodes = [\<lparr>node_id = ''a'', node_type = ''StartNode'', node_params = None\<rparr>],
      connections = [\<lparr>conn_id = ''1'', conn_from = ''a'', conn_to = ''a''\<rparr>,
                     \<lparr>conn_id = ''2'', conn_from = ''a'', conn_to = ''x''\<rparr>]\<rparr>"

text \<open>An evaluator that knows three expressions, with the values JavaScript gives them.\<close>

definition three_expressions :: "string \<Rightarrow> string + jsval" where
  "three_expressions s =
     (if s = ''5 === 5'' then Inr (JBool True)
      else if s = ''undefined === 5'' then Inr (JBool False)
      else if s = ''1 === undefined'' then Inr (JBool False)
      else Inl ''Unexpected token'')"

text \<open>Exchanges that end with a response of status 204, with one of status 404, with
  none, and before the request was sent.\<close>

definition no_content :: "request \<Rightarrow> exchange" where
  "no_content rq = Response 204 ''No Content'' (JObj []) (JStr [])"

definition not_found :: "request \<Rightarrow> exchange" where
  "not_found rq = Response 404 ''Not Found'' (JObj []) (JStr ''missing'')"

definition timed_out :: "request \<Rightarrow> exchange" where
  "timed_out rq = NoReply ''timeout of 30000ms exceeded''"

definition never_sent :: "request \<Rightarrow> exchange" where
  "never_sent rq = NotSent ''Invalid URL''"

section \<open>The Log and HttpFetch executors\<close>

text \<open>
  Claim C10.  The Log executor of the engine is total: for every input list and every
  parameter record it returns one record and raises no error; a missing
  \<^verbatim>\<open>params.message\<close> is replaced by \<^verbatim>\<open>"Log output"\<close>, and for the empty input list
  \<^verbatim>\<open>loggedData\<close> is the empty record.
\<close>

theorem LogMessageNode_total:
  "(\<exists>r. LogMessageNode_execute now inputData params = Inr [r])
   \<and> LogMessageNode_execute now inputData [] =
       Inr [[(''logMessage'', JStr ''Log output''),
             (''loggedData'', JObj (first_or_empty inputData)), (''timestamp'', JStr now)]]
   \<and> LogMessageNode_execute now [] params =
       Inr [[(''logMessage'', get_prop_default params ''message'' (JStr ''Log output'')),
             (''loggedData'', JObj []), (''timestamp'', JStr now)]]"
  by (simp add: LogMessageNode_execute_def get_prop_default_def get_prop_def first_or_empty_def)

subsection \<open>The HttpFetch executor\<close>

lemma FetchApiNode_request:
  assumes "truthy (get_prop params ''url'')"
    and "get_prop_default params ''method'' (JStr ''GET'') = JStr m"
  shows "FetchApiNode_execute axios inputData params =
     (let rq = \<lparr>rq_method = toLowerCase m, rq_url = get_prop params ''url'',
                 rq_headers = get_prop_default params ''headers'' (JObj []),
                 rq_data = get_prop params ''body'', rq_timeout = 30000\<rparr>
      in ([rq],
          case axios rq of
            Resolved st hs d \<Rightarrow>
              Inr [[(''statusCode'', JNum st), (''headers'', hs), (''data'', d),
                    (''inputData'', JObj (first_or_empty inputData))]]
          | Rejected e \<Rightarrow> Inl (classify e)))"
  using assms by (simp add: FetchApiNode_execute_def Let_def)

text \<open>
  Claim C8.  The HttpFetch executor fails with \<open>MissingParameter\<close> when \<^verbatim>\<open>params.url\<close> is
  empty or absent, and then hands no request to the transport.  Otherwise, with a
  method that is a string, it issues exactly one request \<open>rq\<close>: the lower-cased method,
  the url, the headers (default empty), the body and a timeout of 30000 ms.  If the
  transport resolves the request, the result is the single record
  \<^verbatim>\<open>{statusCode, headers, data, inputData: inputs[0] or {}}\<close>.  If the transport rejects
  it, the error is of exactly one of three categories: a response was received
  (\<open>HttpStatusError\<close>, whose message embeds the status code and the reason), the request
  was sent but no response arrived (\<open>NoResponse\<close>), or the request could not be
  constructed or sent (\<open>RequestFailed\<close>, also for a method that is not a string).  With
  the client library's rule for settling a call, a response with a status from 200 to
  299 is the success and a response with any other status is the \<open>HttpStatusError\<close>.
  Conversely, every success and every failure of the executor arises in one of these
  ways.
\<close>

theorem FetchApiNode_contract:
  "(\<not> truthy (get_prop params ''url'')
      \<longrightarrow> FetchApiNode_execute axios inputData params = ([], Inl MissingParameter))
   \<and> (truthy (get_prop params ''url'')
        \<and> get_prop_default params ''method'' (JStr ''GET'') = JStr m
        \<and> rq = \<lparr>rq_method = toLowerCase m, rq_url = get_prop params ''url'',
                  rq_headers = get_prop_default params ''headers'' (JObj []),
                  rq_data = get_prop params ''body'', rq_timeout = 30000\<rparr>
      \<longrightarrow> (\<forall>st hs d. axios rq = Resolved st hs d \<longrightarrow>
             FetchApiNode_execute axios inputData params =
               ([rq], Inr [[(''statusCode'', JNum st), (''headers'', hs), (''data'', d),
                            (''inputData'', JObj (first_or_empty inputData))]]))
        \<and> (\<forall>x st reason. axios rq = Rejected x \<and> err_response x = Some (st, reason) \<longrightarrow>
             FetchApiNode_execute axios inputData params
               = ([rq], Inl (HttpStatusError st reason)))
        \<and> (\<forall>x. axios rq = Rejected x \<and> err_response x = None \<and> err_request x \<longrightarrow>
             FetchApiNode_execute axios inputData params = ([rq], Inl NoResponse))
        \<and> (\<forall>x. axios rq = Rejected x \<and> err_response x = None \<and> \<not> err_request x \<longrightarrow>
             FetchApiNode_execute axios inputData params
               = ([rq], Inl (RequestFailed (err_message x))))
        \<and> (\<forall>st reason hs d. http rq = Response st reason hs d \<longrightarrow>
             FetchApiNode_execute (axios_default http) inputData params =
               ([rq],
                if 200 \<le> sint st \<and> sint st < 300
                then Inr [[(''statusCode'', JNum st), (''headers'', hs), (''data'', d),
                           (''inputData'', JObj (first_or_empty inputData))]]
                else Inl (HttpStatusError st reason)))
        \<and> (\<forall>t. http rq = NoReply t \<longrightarrow>
             FetchApiNode_execute (axios_default http) inputData params = ([rq], Inl NoResponse))
        \<and> (\<forall>t. http rq = NotSent t \<longrightarrow>
             FetchApiNode_execute (axios_default http) inputData params
               = ([rq], Inl (RequestFailed t))))
   \<and> (truthy (get_prop params ''url'')
        \<and> (\<forall>m. get_prop_default params ''method'' (JStr ''GET'') \<noteq> JStr m)
      \<longrightarrow> FetchApiNode_execute axios inputData params =
            ([], Inl (RequestFailed
                        (type_error_message ''method'' ''toLowerCase''
                           (get_prop_default params ''method'' (JStr ''GET''))))))
   \<and> error_message (HttpStatusError code text) = ''HTTP '' @ show_whole code @ '': '' @ text
   \<and> error_message NoResponse = ''No response received from server''
   \<and> error_message (RequestFailed text) = ''Request failed: '' @ text
   \<and> (\<forall>rqs out. FetchApiNode_execute axios inputData params = (rqs, Inr out) \<longrightarrow>
         (\<exists>rq st hs d. rqs = [rq] \<and> rq_timeout rq = 30000
            \<and> rq_url rq = get_prop params ''url'' \<and> axios rq = Resolved st hs d
            \<and> out = [[(''statusCode'', JNum st), (''headers'', hs), (''data'', d),
                        (''inputData'', JObj (first_or_empty inputData))]]))
   \<and> (\<forall>rqs e. FetchApiNode_execute axios inputData params = (rqs, Inl e) \<longrightarrow>
         (e = MissingParameter \<and> rqs = [])
         \<or> (\<exists>rq x st reason. rqs = [rq] \<and> axios rq = Rejected x
               \<and> err_response x = Some (st, reason) \<and> e = HttpStatusError st reason)
         \<or> (\<exists>rq x. rqs = [rq] \<and> axios rq = Rejected x \<and> err_response x = None
               \<and> err_request x \<and> e = NoResponse)
         \<or> (\<exists>t. e = RequestFailed t
               \<and> (rqs = [] \<or> (\<exists>rq x. rqs = [rq] \<and> axios rq = Rejected x
                      \<and> err_response x = None \<and> \<not> err_request x \<and> t = err_message x))))"
proof (intro conjI)
  show "\<not> truthy (get_prop params ''url'')
      \<longrightarrow> FetchApiNode_execute axios inputData params = ([], Inl MissingParameter)"
    by (simp add: FetchApiNode_execute_def Let_def)
next
  show "truthy (get_prop params ''url'')
        \<and> get_prop_default params ''method'' (JStr ''GET'') = JStr m
        \<and> rq = \<lparr>rq_method = toLowerCase m, rq_url = get_prop params ''url'',
                  rq_headers = get_prop_default params ''headers'' (JObj []),
                  rq_data = get_prop params ''body'', rq_timeout = 30000\<rparr>
      \<longrightarrow> (\<forall>st hs d. axios rq = Resolved st hs d \<longrightarrow>
             FetchApiNode_execute axios inputData params =
               ([rq], Inr [[(''statusCode'', JNum st), (''headers'', hs), (''data'', d),
                            (''inputData'', JObj (first_or_empty inputData))]]))
        \<and> (\<forall>x st reason. axios rq = Rejected x \<and> err_response x = Some (st, reason) \<longrightarrow>
             FetchApiNode_execute axios inputData params
               = ([rq], Inl (HttpStatusError st reason)))
        \<and> (\<forall>x. axios rq = Rejected x \<and> err_response x = None \<and> err_request x \<longrightarrow>
             FetchApiNode_execute axios inputData params = ([rq], Inl NoResponse))
        \<and> (\<forall>x. axios rq = Rejected x \<and> err_response x = None \<and> \<not> err_request x \<longrightarrow>
             FetchApiNode_execute axios inputData params
               = ([rq], Inl (RequestFailed (err_message x))))
        \<and> (\<forall>st reason hs d. http rq = Response st reason hs d \<longrightarrow>
             FetchApiNode_execute (axios_default http) inputData params =
               ([rq],
                if 200 \<le> sint st \<and> sint st < 300
                then Inr [[(''statusCode'', JNum st), (''headers'', hs), (''data'', d),
                           (''inputData'', JObj (first_or_empty inputData))]]
                else Inl (HttpStatusError st reason)))
        \<and> (\<forall>t. http rq = NoReply t \<longrightarrow>
             FetchApiNode_execute (axios_default http) inputData params = ([rq], Inl NoResponse))
        \<and> (\<forall>t. http rq = NotSent t \<longrightarrow>
             FetchApiNode_execute (axios_default http) inputData params
               = ([rq], Inl (RequestFailed t)))"
  proof (intro impI)
    assume a: "truthy (get_prop params ''url'')
        \<and> get_prop_default params ''method'' (JStr ''GET'') = JStr m
        \<and> rq = \<lparr>rq_method = toLowerCase m, rq_url = get_prop params ''url'',
                  rq_headers = get_prop_default params ''headers'' (JObj []),
                  rq_data = get_prop params ''body'', rq_timeout = 30000\<rparr>"
    then have r: "\<And>ax. FetchApiNode_execute ax inputData params =
        ([rq], case ax rq of
            Resolved st hs d \<Rightarrow>
              Inr [[(''statusCode'', JNum st), (''headers'', hs), (''data'', d),
                    (''inputData'', JObj (first_or_empty inputData))]]
          | Rejected e \<Rightarrow> Inl (classify e))"
      by (simp add: FetchApiNode_request Let_def)
    show "(\<forall>st hs d. axios rq = Resolved st hs d \<longrightarrow>
             FetchApiNode_execute axios inputData params =
               ([rq], Inr [[(''statusCode'', JNum st), (''headers'', hs), (''data'', d),
                            (''inputData'', JObj (first_or_empty inputData))]]))
        \<and> (\<forall>x st reason. axios rq = Rejected x \<and> err_response x = Some (st, reason) \<longrightarrow>
             FetchApiNode_execute axios inputData params
               = ([rq], Inl (HttpStatusError st reason)))
        \<and> (\<forall>x. axios rq = Rejected x \<and> err_response x = None \<and> err_request x \<longrightarrow>
             FetchApiNode_execute axios inputData params = ([rq], Inl NoResponse))
        \<and> (\<forall>x. axios rq = Rejected x \<and> err_response x = None \<and> \<not> err_request x \<longrightarrow>
             FetchApiNode_execute axios inputData params
               = ([rq], Inl (RequestFailed (err_message x))))
        \<and> (\<forall>st reason hs d. http rq = Response st reason hs d \<longrightarrow>
             FetchApiNode_execute (axios_default http) inputData params =
               ([rq],
                if 200 \<le> sint st \<and> sint st < 300
                then Inr [[(''statusCode'', JNum st), (''headers'', hs), (''data'', d),
                           (''inputData'', JObj (first_or_empty inputData))]]
                else Inl (HttpStatusError st reason)))
        \<and> (\<forall>t. http rq = NoReply t \<longrightarrow>
             FetchApiNode_execute (axios_default http) inputData params = ([rq], Inl NoResponse))
        \<and> (\<forall>t. http rq = NotSent t \<longrightarrow>
             FetchApiNode_execute (axios_default http) inputData params
               = ([rq], Inl (RequestFailed t)))"
      unfolding r by (auto simp: classify_def axios_default_def)
  qed
next
  show "truthy (get_prop params ''url'')
        \<and> (\<forall>m. get_prop_default params ''method'' (JStr ''GET'') \<noteq> JStr m)
      \<longrightarrow> FetchApiNode_execute axios inputData params =
            ([], Inl (RequestFailed
                        (type_error_message ''method'' ''toLowerCase''
                           (get_prop_default params ''method'' (JStr ''GET'')))))"
    by (cases "get_prop_default params ''method'' (JStr ''GET'')")
       (simp_all add: FetchApiNode_execute_def Let_def classify_def)
next
  show "error_message (HttpStatusError code text) = ''HTTP '' @ show_whole code @ '': '' @ text"
    by simp
next
  show "error_message NoResponse = ''No response received from server''"
    by simp
next
  show "error_message (RequestFailed text) = ''Request failed: '' @ text"
    by simp
next
  show "\<forall>rqs out. FetchApiNode_execute axios inputData params = (rqs, Inr out) \<longrightarrow>
         (\<exists>rq st hs d. rqs = [rq] \<and> rq_timeout rq = 30000
            \<and> rq_url rq = get_prop params ''url'' \<and> axios rq = Resolved st hs d
            \<and> out = [[(''statusCode'', JNum st), (''headers'', hs), (''data'', d),
                        (''inputData'', JObj (first_or_empty inputData))]])"
    by (auto simp: FetchApiNode_execute_def Let_def classify_def
             split: if_splits jsval.splits axios_outcome.splits)
next
  show "\<forall>rqs e. FetchApiNode_execute axios inputData params = (rqs, Inl e) \<longrightarrow>
         (e = MissingParameter \<and> rqs = [])
         \<or> (\<exists>rq x st reason. rqs = [rq] \<and> axios rq = Rejected x
               \<and> err_response x = Some (st, reason) \<and> e = HttpStatusError st reason)
         \<or> (\<exists>rq x. rqs = [rq] \<and> axios rq = Rejected x \<and> err_response x = None
               \<and> err_request x \<and> e = NoResponse)
         \<or> (\<exists>t. e = RequestFailed t
               \<and> (rqs = [] \<or> (\<exists>rq x. rqs = [rq] \<and> axios rq = Rejected x
                      \<and> err_response x = None \<and> \<not> err_request x \<and> t = err_message x)))"
    by (auto simp: FetchApiNode_execute_def Let_def classify_def
             split: if_splits jsval.splits axios_outcome.splits option.splits)
qed

theorem FetchApiNode_contract_witness:
  "\<not> truthy (get_prop [] ''url'')
   \<and> FetchApiNode_execute ok_transport [] [] = ([], Inl MissingParameter)
   \<and> truthy (get_prop [(''url'', JStr ''http://x'')] ''url'')
   \<and> ok_transport
        \<lparr>rq_method = ''get'', rq_url = JStr ''http://x'', rq_headers = JObj [],
          rq_data = JUndefined, rq_timeout = 30000\<rparr>
       = Resolved 200 (JObj []) (JObj [(''ok'', JBool True)])
   \<and> FetchApiNode_execute ok_transport [[(''a'', JNum 1)]] [(''url'', JStr ''http://x'')] =
       ([\<lparr>rq_method = ''get'', rq_url = JStr ''http://x'', rq_headers = JObj [],
          rq_data = JUndefined, rq_timeout = 30000\<rparr>],
        Inr [[(''statusCode'', JNum 200), (''headers'', JObj []),
              (''data'', JObj [(''ok'', JBool True)]),
              (''inputData'', JObj [(''a'', JNum 1)])]])
   \<and> FetchApiNode_execute failing_transport [] [(''url'', JStr ''http://x'')] =
       ([\<lparr>rq_method = ''get'', rq_url = JStr ''http://x'', rq_headers = JObj [],
          rq_data = JUndefined, rq_timeout = 30000\<rparr>],
        Inl (HttpStatusError 500 ''Internal Server Error''))
   \<and> FetchApiNode_execute (axios_default no_content) [] [(''url'', JStr ''http://x'')] =
       ([\<lparr>rq_method = ''get'', rq_url = JStr ''http://x'', rq_headers = JObj [],
          rq_data = JUndefined, rq_timeout = 30000\<rparr>],
        Inr [[(''statusCode'', JNum 204), (''headers'', JObj []), (''data'', JStr []),
              (''inputData'', JObj [])]])
   \<and> FetchApiNode_execute (axios_default not_found) [] [(''url'', JStr ''http://x'')] =
       ([\<lparr>rq_method = ''get'', rq_url = JStr ''http://x'', rq_headers = JObj [],
          rq_data = JUndefined, rq_timeout = 30000\<rparr>],
        Inl (HttpStatusError 404 ''Not Found''))
   \<and> FetchApiNode_execute (axios_default timed_out) [] [(''url'', JStr ''http://x'')] =
       ([\<lparr>rq_method = ''get'', rq_url = JStr ''http://x'', rq_headers = JObj [],
          rq_data = JUndefined, rq_timeout = 30000\<rparr>], Inl NoResponse)
   \<and> FetchApiNode_execute (axios_default never_sent) [] [(''url'', JStr ''http://x'')] =
       ([\<lparr>rq_method = ''get'', rq_url = JStr ''http://x'', rq_headers = JObj [],
          rq_data = JUndefined, rq_timeout = 30000\<rparr>], Inl (RequestFailed ''Invalid URL''))
   \<and> FetchApiNode_execute ok_transport [] [(''url'', JStr ''http://x''), (''method'', JNum 7)] =
       ([], Inl (RequestFailed ''method.toLowerCase is not a function''))"
proof -
  let ?rq = "\<lparr>rq_method = ''get'', rq_url = JStr ''http://x'', rq_headers = JObj [],
          rq_data = JUndefined, rq_timeout = 30000\<rparr>"
  let ?p = "[(''url'', JStr ''http://x'')]"
  have h: "\<not> truthy (get_prop [] ''url'')"
    by (simp add: get_prop_def)
  have a: "FetchApiNode_execute ok_transport [] [] = ([], Inl MissingParameter)"
    using FetchApiNode_contract [where params = "[]" and axios = ok_transport and inputData = "[]"] h
    by blast
  have u: "truthy (get_prop ?p ''url'')
        \<and> get_prop_default ?p ''method'' (JStr ''GET'') = JStr ''GET''
        \<and> ?rq = \<lparr>rq_method = toLowerCase ''GET'', rq_url = get_prop ?p ''url'',
                  rq_headers = get_prop_default ?p ''headers'' (JObj []),
                  rq_data = get_prop ?p ''body'', rq_timeout = 30000\<rparr>"
    by (simp add: get_prop_default_def get_prop_def toLowerCase_def lower_char_def)
  have ok: "ok_transport ?rq = Resolved 200 (JObj []) (JObj [(''ok'', JBool True)])"
    by (simp add: ok_transport_def)
  have bad: "failing_transport ?rq =
      Rejected \<lparr>err_response = Some (500, ''Internal Server Error''), err_request = True,
                 err_message = ''Request failed with status code 500''\<rparr>"
    by (simp add: failing_transport_def)
  have b: "FetchApiNode_execute ok_transport [[(''a'', JNum 1)]] ?p =
       ([?rq], Inr [[(''statusCode'', JNum 200), (''headers'', JObj []),
              (''data'', JObj [(''ok'', JBool True)]),
              (''inputData'', JObj [(''a'', JNum 1)])]])"
    using FetchApiNode_contract [where params = ?p and m = "''GET''" and rq = ?rq
        and axios = ok_transport and inputData = "[[(''a'', JNum 1)]]"] u ok
    by (simp add: first_or_empty_def)
  have c: "FetchApiNode_execute failing_transport [] ?p =
       ([?rq], Inl (HttpStatusError 500 ''Internal Server Error''))"
    using FetchApiNode_contract [where params = ?p and m = "''GET''" and rq = ?rq
        and axios = failing_transport and inputData = "[]"] u bad
    by simp
  have d: "FetchApiNode_execute (axios_default no_content) [] ?p =
       ([?rq], Inr [[(''statusCode'', JNum 204), (''headers'', JObj []), (''data'', JStr []),
              (''inputData'', JObj [])]])"
    using FetchApiNode_contract [where params = ?p and m = "''GET''" and rq = ?rq
        and axios = ok_transport and inputData = "[]" and http = no_content] u
    by (simp add: no_content_def first_or_empty_def)
  have e: "FetchApiNode_execute (axios_default not_found) [] ?p =
       ([?rq], Inl (HttpStatusError 404 ''Not Found''))"
    using FetchApiNode_contract [where params = ?p and m = "''GET''" and rq = ?rq
        and axios = ok_transport and inputData = "[]" and http = not_found] u
    by (simp add: not_found_def)
  have f: "FetchApiNode_execute (axios_default timed_out) [] ?p = ([?rq], Inl NoResponse)"
    using FetchApiNode_contract [where params = ?p and m = "''GET''" and rq = ?rq
        and axios = ok_transport and inputData = "[]" and http = timed_out] u
    by (simp add: timed_out_def)
  have g: "FetchApiNode_execute (axios_default never_sent) [] ?p
             = ([?rq], Inl (RequestFailed ''Invalid URL''))"
    using FetchApiNode_contract [where params = ?p and m = "''GET''" and rq = ?rq
        and axios = ok_transport and inputData = "[]" and http = never_sent] u
    by (simp add: never_sent_def)
  have n: "truthy (get_prop [(''url'', JStr ''http://x''), (''method'', JNum 7)] ''url'')
        \<and> (\<forall>m. get_prop_default [(''url'', JStr ''http://x''), (''method'', JNum 7)]
                  ''method'' (JStr ''GET'') \<noteq> JStr m)"
    by (simp add: get_prop_default_def get_prop_def)
  have i: "FetchApiNode_execute ok_transport [] [(''url'', JStr ''http://x''), (''method'', JNum 7)] =
       ([], Inl (RequestFailed ''method.toLowerCase is not a function''))"
    using FetchApiNode_contract [where params = "[(''url'', JStr ''http://x''), (''method'', JNum 7)]"
        and axios = ok_transport and inputData = "[]"] n
    by (simp add: get_prop_default_def get_prop_def type_error_message_def)
  from h a u ok b c d e f g i show ?thesis by blast
qed
subsection \<open>Placeholders\<close>

lemma prepend_Inr [simp]: "prepend t (Inr u) = Inr (t @ u)"
  by (simp add: prepend_def)

lemma prepend_Inl [simp]: "prepend t (Inl e) = Inl e"
  by (simp add: prepend_def)

lemma prepend_Cons: "prepend (c # t) r = prepend [c] (prepend t r)"
  by (cases r) simp_all

lemma prepend_Nil [simp]: "prepend [] r = r"
  by (cases r) simp_all

lemma match_placeholder_inert:
  "inert (c # t) \<Longrightarrow> match_placeholder (c # t @ s) = None"
  by (cases t) (auto simp: match_placeholder_def numeral_2_eq_2)

lemma inert_tail: "inert (c # t) \<Longrightarrow> inert t"
  by (cases t) simp_all

lemma replace_placeholders_literal:
  "inert t \<Longrightarrow> replace_placeholders f (t @ s) = prepend t (replace_placeholders f s)"
proof (induction t)
  case Nil
  show ?case by simp
next
  case (Cons c t)
  from Cons.prems have "match_placeholder (c # t @ s) = None"
    by (rule match_placeholder_inert)
  moreover from Cons have "replace_placeholders f (t @ s) = prepend t (replace_placeholders f s)"
    by (simp add: inert_tail)
  ultimately show ?case
    by (simp add: prepend_Cons [of c t])
qed

lemma match_placeholder_hit:
  assumes "p \<noteq> []" and "CHR ''}'' \<notin> set p"
  shows "match_placeholder (''{{'' @ p @ ''}}'' @ post) = Some (p, post)"
proof -
  have n: "\<And>x. x \<in> set p \<Longrightarrow> x \<noteq> CHR ''}''"
    using assms(2) by auto
  have t: "takeWhile (\<lambda>c. c \<noteq> CHR ''}'') (p @ ''}}'' @ post) = p"
    using n by simp
  have d: "dropWhile (\<lambda>c. c \<noteq> CHR ''}'') (p @ ''}}'' @ post) = ''}}'' @ post"
    using n by simp
  show ?thesis
    using assms(1) t d by (simp add: match_placeholder_def Let_def)
qed

lemma replace_placeholders_hole:
  assumes "p \<noteq> []" and "CHR ''}'' \<notin> set p"
  shows "replace_placeholders f (''{{'' @ p @ ''}}'' @ post)
           = (case f p of Inl e \<Rightarrow> Inl e | Inr v \<Rightarrow> prepend v (replace_placeholders f post))"
  using match_placeholder_hit [OF assms, of post] by simp

lemma replace_placeholders_pieces:
  "list_all path_piece ps \<Longrightarrow>
   replace_placeholders f (source_text ps @ s) =
     (case substitute f ps of Inl e \<Rightarrow> Inl e
      | Inr t \<Rightarrow> prepend t (replace_placeholders f s))"
proof (induction ps)
  case Nil
  show ?case by (simp add: source_text_def)
next
  case (Cons x ps)
  then have ih: "replace_placeholders f (source_text ps @ s) =
     (case substitute f ps of Inl e \<Rightarrow> Inl e
      | Inr t \<Rightarrow> prepend t (replace_placeholders f s))"
    by simp
  show ?case
  proof (cases x)
    case (Text t)
    with Cons.prems have "inert t" by simp
    from replace_placeholders_literal [OF this, of f "source_text ps @ s"] ih Text
    show ?thesis
      by (cases "substitute f ps"; cases "replace_placeholders f s")
         (simp_all add: source_text_def)
  next
    case (Hole p)
    with Cons.prems have "p \<noteq> []" "CHR ''}'' \<notin> set p" by simp_all
    from replace_placeholders_hole [OF this, of f "source_text ps @ s"] ih Hole
    show ?thesis
      by (cases "f p"; cases "substitute f ps"; cases "replace_placeholders f s")
         (simp_all add: source_text_def)
  qed
qed

lemma match_placeholder_lazy_inert:
  "inert (c # t) \<Longrightarrow> match_placeholder_lazy (c # t @ s) = None"
  by (cases t) (auto simp: match_placeholder_lazy_def numeral_2_eq_2)

lemma replace_placeholders_lazy_literal:
  "inert t \<Longrightarrow>
   replace_placeholders_lazy f (t @ s) = prepend t (replace_placeholders_lazy f s)"
proof (induction t)
  case Nil
  show ?case by simp
next
  case (Cons c t)
  from Cons.prems have "match_placeholder_lazy (c # t @ s) = None"
    by (rule match_placeholder_lazy_inert)
  moreover from Cons
  have "replace_placeholders_lazy f (t @ s) = prepend t (replace_placeholders_lazy f s)"
    by (simp add: inert_tail)
  ultimately show ?case
    by (simp add: prepend_Cons [of c t])
qed

lemma find_close_hit: "CHR ''}'' \<notin> set k \<Longrightarrow> find_close (k @ ''}}'' @ post) = Some (k, post)"
proof (induction k)
  case Nil
  show ?case by simp
next
  case (Cons c k)
  obtain d cs where dc: "k @ ''}}'' @ post = d # cs" by (cases "k @ ''}}'' @ post") auto
  from Cons have "find_close (d # cs) = Some (k, post)" "c \<noteq> CHR ''}''" unfolding dc [symmetric] by auto
  then have "find_close (c # d # cs) = Some (c # k, post)" by simp
  then show ?case unfolding dc [symmetric] by simp
qed

lemma replace_placeholders_lazy_hole:
  assumes "CHR ''}'' \<notin> set k" and "CHR 0x0A \<notin> set k" and "CHR 0x0D \<notin> set k"
  shows "replace_placeholders_lazy f (''{{'' @ k @ ''}}'' @ post)
           = (case f k of Inl e \<Rightarrow> Inl e
              | Inr v \<Rightarrow> prepend v (replace_placeholders_lazy f post))"
proof -
  have "match_placeholder_lazy (''{{'' @ k @ ''}}'' @ post) = Some (k, post)"
    using find_close_hit [OF assms(1), of post] assms(2,3)
    by (simp add: match_placeholder_lazy_def)
  then show ?thesis by simp
qed

lemma replace_placeholders_lazy_pieces:
  "list_all key_piece ps \<Longrightarrow>
   replace_placeholders_lazy f (source_text ps @ s) =
     (case substitute f ps of Inl e \<Rightarrow> Inl e
      | Inr t \<Rightarrow> prepend t (replace_placeholders_lazy f s))"
proof (induction ps)
  case Nil
  show ?case by (simp add: source_text_def)
next
  case (Cons x ps)
  then have ih: "replace_placeholders_lazy f (source_text ps @ s) =
     (case substitute f ps of Inl e \<Rightarrow> Inl e
      | Inr t \<Rightarrow> prepend t (replace_placeholders_lazy f s))"
    by simp
  show ?case
  proof (cases x)
    case (Text t)
    with Cons.prems have "inert t" by simp
    from replace_placeholders_lazy_literal [OF this, of f "source_text ps @ s"] ih Text
    show ?thesis
      by (cases "substitute f ps"; cases "replace_placeholders_lazy f s")
         (simp_all add: source_text_def)
  next
    case (Hole k)
    with Cons.prems have "CHR ''}'' \<notin> set k" "CHR 0x0A \<notin> set k" "CHR 0x0D \<notin> set k"
      by simp_all
    from replace_placeholders_lazy_hole [OF this, of f "source_text ps @ s"] ih Hole
    show ?thesis
      by (cases "f k"; cases "substitute f ps"; cases "replace_placeholders_lazy f s")
         (simp_all add: source_text_def)
  qed
qed

subsection \<open>Walking a path\<close>

lemma split_on_Cons: "\<exists>k ks. split_on c s = k # ks"
  by (induction s) (auto split: list.splits)

lemma walk_undefined:
  assumes "\<And>k. step (Data JUndefined) k = Inr (Data JUndefined)"
  shows "walk step ks (Data JUndefined) = Inr (Data JUndefined)"
  by (induction ks) (simp_all add: assms)

lemma walk_absent:
  assumes "step w (hd ks) = Inr (Data JUndefined)" and "ks \<noteq> []"
    and "\<And>k. step (Data JUndefined) k = Inr (Data JUndefined)"
  shows "walk step ks w = Inr (Data JUndefined)"
  using assms(1,2) by (cases ks) (simp_all add: walk_undefined [of step, OF assms(3)])

lemma walk_fields:
  assumes "field_at v ks = Some x"
    and "\<And>kvs k y. map_of kvs k = Some y \<Longrightarrow> step (Data (JObj kvs)) k = Inr (Data y)"
  shows "walk step ks (Data v) = Inr (Data x)"
  using assms(1)
proof (induction v ks rule: field_at.induct)
  case (2 kvs k ks)
  then obtain y where y: "map_of kvs k = Some y" "field_at y ks = Some x"
    by (auto split: option.splits)
  with 2 assms(2) [OF y(1)] show ?case by simp
qed simp_all

lemma resolve_path_absent:
  assumes "map_of data (hd (split_on CHR ''.'' p)) = None"
    and "inherited b (JObj data) (hd (split_on CHR ''.'' p)) = Inr (Data JUndefined)"
  shows "resolve_path b data p = Inr (Data JUndefined)"
  unfolding resolve_path_def
proof (rule walk_absent)
  show "optional_access b (Data (JObj data)) (hd (split_on CHR ''.'' p)) = Inr (Data JUndefined)"
    using assms by (simp add: optional_access_def member_access_def)
  show "split_on CHR ''.'' p \<noteq> []"
    using split_on_Cons [of "CHR ''.''" p] by auto
  show "\<And>k. optional_access b (Data JUndefined) k = Inr (Data JUndefined)"
    by (simp add: optional_access_def)
qed

lemma resolve_path_fields:
  assumes "field_at (JObj data) (split_on CHR ''.'' p) = Some v"
  shows "resolve_path b data p = Inr (Data v)"
  unfolding resolve_path_def
  by (rule walk_fields [OF assms]) (simp add: optional_access_def member_access_def)

lemma walk_truthy_absent:
  assumes "map_of item (hd (split_on CHR ''.'' k)) = None"
    and "inherited b (JObj item) (hd (split_on CHR ''.'' k)) = Inr (Data JUndefined)"
  shows "walk_truthy b item k = Inr (Data JUndefined)"
  unfolding walk_truthy_def
proof (rule walk_absent)
  show "truthy_access b (Data (JObj item)) (hd (split_on CHR ''.'' k)) = Inr (Data JUndefined)"
    using assms by (simp add: truthy_access_def member_access_def)
  show "split_on CHR ''.'' k \<noteq> []"
    using split_on_Cons [of "CHR ''.''" k] by auto
  show "\<And>i. truthy_access b (Data JUndefined) i = Inr (Data JUndefined)"
    by (simp add: truthy_access_def)
qed

lemma walk_truthy_fields:
  assumes "field_at (JObj item) (split_on CHR ''.'' k) = Some v"
  shows "walk_truthy b item k = Inr (Data v)"
  unfolding walk_truthy_def
  by (rule walk_fields [OF assms]) (simp add: truthy_access_def member_access_def)

subsection \<open>The Branch executor\<close>

text \<open>
  Claim C4, as the code has it.  With the first input record \<^verbatim>\<open>{a: {b: 5}}\<close> and the
  condition \<^verbatim>\<open>"{{a.b}} === 5"\<close> the evaluator is given \<^verbatim>\<open>5 === 5\<close>; if it yields
  \<^verbatim>\<open>true\<close> the result has \<^verbatim>\<open>conditionResult\<close> true and \<^verbatim>\<open>outputPath\<close> \<^verbatim>\<open>"true"\<close>.  In a
  condition made of inert text and placeholders, every placeholder is replaced by the
  JSON text of the value found at its path.  A path that leads to a field of the record
  finds that field; a path whose first key is neither a field of the record nor
  inherited finds \<^verbatim>\<open>undefined\<close>, and a placeholder whose path finds \<^verbatim>\<open>undefined\<close> is
  replaced by the text \<^verbatim>\<open>undefined\<close>.  The step fails with \<open>ConditionEvaluationError\<close>
  exactly when the substitution or the evaluator throws; otherwise it returns the
  record for the value of the substituted expression.
\<close>

theorem IfNode_substitution:
  "(js_eval ''5 === 5'' = Inr (JBool True) \<longrightarrow>
      IfNode_execute b js_eval ([(''a'', JObj [(''b'', JNum 5)])] # others)
          [(''condition'', JStr ''{{a.b}} === 5'')]
        = Inr [[(''conditionResult'', JBool True),
                (''conditionExpression'', JStr ''{{a.b}} === 5''),
                (''inputData'', JObj [(''a'', JObj [(''b'', JNum 5)])]),
                (''outputPath'', JStr ''true'')]])
   \<and> (list_all path_piece ps \<longrightarrow>
        evaluableCondition b data (source_text ps) = substitute (serialized_at b data) ps)
   \<and> (field_at (JObj data) (split_on CHR ''.'' p) = Some v \<longrightarrow>
        serialized_at b data p = Inr (case stringify v of None \<Rightarrow> ''undefined'' | Some t \<Rightarrow> t))
   \<and> (map_of data (hd (split_on CHR ''.'' p)) = None
        \<and> inherited b (JObj data) (hd (split_on CHR ''.'' p)) = Inr (Data JUndefined) \<longrightarrow>
        resolve_path b data p = Inr (Data JUndefined))
   \<and> (resolve_path b data p = Inr (Data JUndefined) \<longrightarrow>
        serialized_at b data p = Inr ''undefined'')
   \<and> (get_prop params ''condition'' = JStr c \<longrightarrow>
      IfNode_execute b js_eval inputData params =
        (case evaluableCondition b (first_or_empty inputData) c of
           Inl m \<Rightarrow> Inl (ConditionEvaluationError c m)
         | Inr expression \<Rightarrow>
             (case js_eval expression of
                Inl m \<Rightarrow> Inl (ConditionEvaluationError c m)
              | Inr r \<Rightarrow> Inr [[(''conditionResult'', JBool (truthy r)),
                               (''conditionExpression'', JStr c),
                               (''inputData'', JObj (first_or_empty inputData)),
                               (''outputPath'',
                                  JStr (if truthy r then ''true'' else ''false''))]])))"
proof (intro conjI impI)
  let ?data = "[(''a'', JObj [(''b'', JNum 5)])]"
  have pieces: "list_all path_piece [Hole ''a.b'', Text '' === 5'']"
    by simp
  have "field_at (JObj ?data) (split_on CHR ''.'' ''a.b'') = Some (JNum 5)"
    by simp
  then have "resolve_path b ?data ''a.b'' = Inr (Data (JNum 5))"
    by (rule resolve_path_fields)
  then have five: "serialized_at b ?data ''a.b'' = Inr ''5''"
    by (simp add: serialized_at_def show_whole_def show_int_def show_nat.simps)
  have "evaluableCondition b ?data (source_text [Hole ''a.b'', Text '' === 5'']) = Inr ''5 === 5''"
    unfolding evaluableCondition_def
    using replace_placeholders_pieces [OF pieces, of "serialized_at b ?data" "[]"] five
    by simp
  then have s: "evaluableCondition b ?data ''{{a.b}} === 5'' = Inr ''5 === 5''"
    by (simp add: source_text_def)
  assume "js_eval ''5 === 5'' = Inr (JBool True)"
  then show "IfNode_execute b js_eval (?data # others) [(''condition'', JStr ''{{a.b}} === 5'')]
        = Inr [[(''conditionResult'', JBool True),
                (''conditionExpression'', JStr ''{{a.b}} === 5''),
                (''inputData'', JObj ?data),
                (''outputPath'', JStr ''true'')]]"
    by (simp add: IfNode_execute_def get_prop_default_def get_prop_def first_or_empty_def s)
next
  assume "list_all path_piece ps"
  from replace_placeholders_pieces [OF this, of "serialized_at b data" "[]"]
  show "evaluableCondition b data (source_text ps) = substitute (serialized_at b data) ps"
    unfolding evaluableCondition_def
    by (cases "substitute (serialized_at b data) ps") simp_all
next
  assume "field_at (JObj data) (split_on CHR ''.'' p) = Some v"
  then have "resolve_path b data p = Inr (Data v)"
    by (rule resolve_path_fields)
  then show "serialized_at b data p
               = Inr (case stringify v of None \<Rightarrow> ''undefined'' | Some t \<Rightarrow> t)"
    by (simp add: serialized_at_def)
next
  assume "map_of data (hd (split_on CHR ''.'' p)) = None
        \<and> inherited b (JObj data) (hd (split_on CHR ''.'' p)) = Inr (Data JUndefined)"
  then show "resolve_path b data p = Inr (Data JUndefined)"
    by (simp add: resolve_path_absent)
next
  assume "resolve_path b data p = Inr (Data JUndefined)"
  then show "serialized_at b data p = Inr ''undefined''"
    by (simp add: serialized_at_def)
next
  assume "get_prop params ''condition'' = JStr c"
  then show "IfNode_execute b js_eval inputData params =
        (case evaluableCondition b (first_or_empty inputData) c of
           Inl m \<Rightarrow> Inl (ConditionEvaluationError c m)
         | Inr expression \<Rightarrow>
             (case js_eval expression of
                Inl m \<Rightarrow> Inl (ConditionEvaluationError c m)
              | Inr r \<Rightarrow> Inr [[(''conditionResult'', JBool (truthy r)),
                               (''conditionExpression'', JStr c),
                               (''inputData'', JObj (first_or_empty inputData)),
                               (''outputPath'',
                                  JStr (if truthy r then ''true'' else ''false''))]]))"
    by (simp add: IfNode_execute_def get_prop_default_def Let_def split: sum.splits)
qed

theorem IfNode_substitution_witness:
  "three_expressions ''5 === 5'' = Inr (JBool True)
   \<and> IfNode_execute constructors_only three_expressions [[(''a'', JObj [(''b'', JNum 5)])]]
          [(''condition'', JStr ''{{a.b}} === 5'')]
        = Inr [[(''conditionResult'', JBool True),
                (''conditionExpression'', JStr ''{{a.b}} === 5''),
                (''inputData'', JObj [(''a'', JObj [(''b'', JNum 5)])]),
                (''outputPath'', JStr ''true'')]]
   \<and> list_all path_piece [Hole ''a'', Text '' === '', Hole ''x'']
   \<and> field_at (JObj [(''a'', JNum 1)]) (split_on CHR ''.'' ''a'') = Some (JNum 1)
   \<and> map_of [(''a'', JNum 1)] (hd (split_on CHR ''.'' ''x'')) = None
   \<and> inherited constructors_only (JObj [(''a'', JNum 1)]) (hd (split_on CHR ''.'' ''x''))
       = Inr (Data JUndefined)
   \<and> evaluableCondition constructors_only [(''a'', JNum 1)] ''{{a}} === {{x}}''
       = Inr ''1 === undefined''
   \<and> get_prop [(''condition'', JStr ''{{a}} === {{x}}'')] ''condition'' = JStr ''{{a}} === {{x}}''
   \<and> IfNode_execute constructors_only three_expressions [[(''a'', JNum 1)]]
          [(''condition'', JStr ''{{a}} === {{x}}'')]
        = Inr [[(''conditionResult'', JBool False),
                (''conditionExpression'', JStr ''{{a}} === {{x}}''),
                (''inputData'', JObj [(''a'', JNum 1)]),
                (''outputPath'', JStr ''false'')]]"
proof -
  let ?b = constructors_only
  let ?d = "[(''a'', JNum 1)]"
  let ?ps = "[Hole ''a'', Text '' === '', Hole ''x'']"
  let ?c = "''{{a}} === {{x}}''"
  have h1: "three_expressions ''5 === 5'' = Inr (JBool True)"
    by (simp add: three_expressions_def)
  have h2: "list_all path_piece ?ps"
    by simp
  have h3: "field_at (JObj ?d) (split_on CHR ''.'' ''a'') = Some (JNum 1)"
    by simp
  have h4: "map_of ?d (hd (split_on CHR ''.'' ''x'')) = None
        \<and> inherited ?b (JObj ?d) (hd (split_on CHR ''.'' ''x'')) = Inr (Data JUndefined)"
    by (simp add: constructors_only_def)
  have h5: "get_prop [(''condition'', JStr ?c)] ''condition'' = JStr ?c"
    by (simp add: get_prop_def)
  have src: "source_text ?ps = ?c"
    by (simp add: source_text_def)
  have a: "serialized_at ?b ?d ''a'' = Inr ''1''"
    using IfNode_substitution [where b = ?b and data = ?d and p = "''a''" and v = "JNum 1"] h3
    by (simp add: show_whole_def show_int_def show_nat.simps)
  have x: "serialized_at ?b ?d ''x'' = Inr ''undefined''"
    using IfNode_substitution [where b = ?b and data = ?d and p = "''x''"] h4
    by blast
  have e: "evaluableCondition ?b ?d ?c = Inr ''1 === undefined''"
    using IfNode_substitution [where b = ?b and data = ?d and ps = ?ps] h2 a x
    unfolding src by simp
  have r: "IfNode_execute ?b three_expressions [?d] [(''condition'', JStr ?c)]
        = Inr [[(''conditionResult'', JBool False), (''conditionExpression'', JStr ?c),
                (''inputData'', JObj ?d), (''outputPath'', JStr ''false'')]]"
    using IfNode_substitution [where b = ?b and js_eval = three_expressions
        and inputData = "[?d]" and params = "[(''condition'', JStr ?c)]" and c = ?c] h5 e
    by (simp add: first_or_empty_def three_expressions_def)
  have f: "IfNode_execute ?b three_expressions [[(''a'', JObj [(''b'', JNum 5)])]]
          [(''condition'', JStr ''{{a.b}} === 5'')]
        = Inr [[(''conditionResult'', JBool True),
                (''conditionExpression'', JStr ''{{a.b}} === 5''),
                (''inputData'', JObj [(''a'', JObj [(''b'', JNum 5)])]),
                (''outputPath'', JStr ''true'')]]"
    using IfNode_substitution [where b = ?b and js_eval = three_expressions and others = "[]"] h1
    by blast
  from h1 f h2 h3 h4 e h5 r show ?thesis by blast
qed

text \<open>On the input \<^verbatim>\<open>{}\<close> the condition \<^verbatim>\<open>"{{x}} === 5"\<close> becomes \<^verbatim>\<open>undefined === 5\<close>: the
  placeholder does not stay literal, and the step succeeds with \<^verbatim>\<open>outputPath\<close>
  \<^verbatim>\<open>"false"\<close>.\<close>

theorem IfNode_missing_path_counterexample:
  "evaluableCondition constructors_only [] ''{{x}} === 5'' = Inr ''undefined === 5''
   \<and> IfNode_execute constructors_only three_expressions [[]]
         [(''condition'', JStr ''{{x}} === 5'')]
       = Inr [[(''conditionResult'', JBool False),
               (''conditionExpression'', JStr ''{{x}} === 5''),
               (''inputData'', JObj []),
               (''outputPath'', JStr ''false'')]]"
proof -
  have "resolve_path constructors_only [] ''x'' = Inr (Data JUndefined)"
    by (rule resolve_path_absent) (simp_all add: constructors_only_def)
  then have x: "serialized_at constructors_only [] ''x'' = Inr ''undefined''"
    by (simp add: serialized_at_def)
  have "list_all path_piece [Hole ''x'', Text '' === 5'']"
    by simp
  from replace_placeholders_pieces [OF this, of "serialized_at constructors_only []" "[]"] x
  have s: "evaluableCondition constructors_only [] ''{{x}} === 5'' = Inr ''undefined === 5''"
    by (simp add: evaluableCondition_def source_text_def)
  then show ?thesis
    by (simp add: IfNode_execute_def get_prop_default_def get_prop_def first_or_empty_def
          three_expressions_def)
qed
subsection \<open>The Log executor and placeholders\<close>

lemma log_items_all:
  assumes "\<forall>item\<in>set input. \<exists>t. formattedMessage b m item = Inr t"
  shows "log_items b m input =
     (map (\<lambda>item. ''LOG: '' @ (case formattedMessage b m item of Inl e \<Rightarrow> [] | Inr t \<Rightarrow> t)) input,
      None)"
  using assms by (induction input) auto

text \<open>
  Claim C5, as the code has it.  The Log executor of the engine returns the single
  record \<^verbatim>\<open>{logMessage, loggedData: inputs[0] or {}, timestamp: now}\<close> in which
  \<^verbatim>\<open>logMessage\<close> is \<^verbatim>\<open>params.message\<close> exactly as given (\<^verbatim>\<open>"Log output"\<close> if absent): it
  resolves no placeholder and does not fail.  Placeholders are resolved only by the
  earlier Mini N8N node.  In a message made of inert text and placeholders it replaces
  every placeholder, once per input item: a key that leads to a field of the item, other
  than \<^verbatim>\<open>undefined\<close>, by the string form of that field; a key whose walk into the item
  ends in \<^verbatim>\<open>undefined\<close>, as it does when the first segment is neither a field of the
  item nor inherited, by the placeholder itself.  When every item can be formatted, the
  node prints one line per item and returns its input unchanged.
\<close>

theorem LogMessageNode_message_verbatim:
  "LogMessageNode_execute now inputData params =
     Inr [[(''logMessage'', get_prop_default params ''message'' (JStr ''Log output'')),
           (''loggedData'', JObj (first_or_empty inputData)), (''timestamp'', JStr now)]]
   \<and> (get_prop params ''message'' = JStr m \<longrightarrow>
        LogMessageNode_execute now inputData params =
          Inr [[(''logMessage'', JStr m),
                (''loggedData'', JObj (first_or_empty inputData)), (''timestamp'', JStr now)]])
   \<and> (list_all key_piece ps \<longrightarrow>
        formattedMessage b (source_text ps) item = substitute (formatted_at b item) ps)
   \<and> (field_at (JObj item) (split_on CHR ''.'' k) = Some v \<and> v \<noteq> JUndefined
        \<and> to_string v = Some t \<longrightarrow>
        formatted_at b item k = Inr t)
   \<and> (map_of item (hd (split_on CHR ''.'' k)) = None
        \<and> inherited b (JObj item) (hd (split_on CHR ''.'' k)) = Inr (Data JUndefined) \<longrightarrow>
        walk_truthy b item k = Inr (Data JUndefined))
   \<and> (walk_truthy b item k = Inr (Data JUndefined) \<longrightarrow>
        formatted_at b item k = Inr (''{{'' @ k @ ''}}''))
   \<and> (get_prop params ''message'' = JStr m \<and> m \<noteq> []
        \<and> (\<forall>item\<in>set inputData. \<exists>t. formattedMessage b m item = Inr t) \<longrightarrow>
        MiniN8N_LogMessageNode_execute b inputData params
          = (map (\<lambda>item. ''LOG: '' @ (case formattedMessage b m item of
                                        Inl e \<Rightarrow> [] | Inr t \<Rightarrow> t)) inputData,
             Inr inputData))"
proof (intro conjI impI)
  show "LogMessageNode_execute now inputData params =
     Inr [[(''logMessage'', get_prop_default params ''message'' (JStr ''Log output'')),
           (''loggedData'', JObj (first_or_empty inputData)), (''timestamp'', JStr now)]]"
    by (simp add: LogMessageNode_execute_def)
next
  assume "get_prop params ''message'' = JStr m"
  then show "LogMessageNode_execute now inputData params =
          Inr [[(''logMessage'', JStr m),
                (''loggedData'', JObj (first_or_empty inputData)), (''timestamp'', JStr now)]]"
    by (simp add: LogMessageNode_execute_def get_prop_default_def)
next
  assume "list_all key_piece ps"
  from replace_placeholders_lazy_pieces [OF this, of "formatted_at b item" "[]"]
  show "formattedMessage b (source_text ps) item = substitute (formatted_at b item) ps"
    unfolding formattedMessage_def
    by (cases "substitute (formatted_at b item) ps") simp_all
next
  assume a: "field_at (JObj item) (split_on CHR ''.'' k) = Some v \<and> v \<noteq> JUndefined
        \<and> to_string v = Some t"
  then have "walk_truthy b item k = Inr (Data v)"
    by (simp add: walk_truthy_fields)
  with a show "formatted_at b item k = Inr t"
    by (simp add: formatted_at_def)
next
  assume "map_of item (hd (split_on CHR ''.'' k)) = None
        \<and> inherited b (JObj item) (hd (split_on CHR ''.'' k)) = Inr (Data JUndefined)"
  then show "walk_truthy b item k = Inr (Data JUndefined)"
    by (simp add: walk_truthy_absent)
next
  assume "walk_truthy b item k = Inr (Data JUndefined)"
  then show "formatted_at b item k = Inr (''{{'' @ k @ ''}}'')"
    by (simp add: formatted_at_def)
next
  assume a: "get_prop params ''message'' = JStr m \<and> m \<noteq> []
        \<and> (\<forall>item\<in>set inputData. \<exists>t. formattedMessage b m item = Inr t)"
  then have "log_items b m inputData =
     (map (\<lambda>item. ''LOG: '' @ (case formattedMessage b m item of Inl e \<Rightarrow> [] | Inr t \<Rightarrow> t))
        inputData, None)"
    by (intro log_items_all) simp
  with a show "MiniN8N_LogMessageNode_execute b inputData params
          = (map (\<lambda>item. ''LOG: '' @ (case formattedMessage b m item of
                                        Inl e \<Rightarrow> [] | Inr t \<Rightarrow> t)) inputData,
             Inr inputData)"
    by (simp add: MiniN8N_LogMessageNode_execute_def)
qed

theorem LogMessageNode_message_verbatim_witness:
  "get_prop [(''message'', JStr ''v: {{a.b}}, {{x}}'')] ''message'' = JStr ''v: {{a.b}}, {{x}}''
   \<and> LogMessageNode_execute ''T'' [[(''a'', JObj [(''b'', JNum 1)])]]
        [(''message'', JStr ''v: {{a.b}}, {{x}}'')] =
          Inr [[(''logMessage'', JStr ''v: {{a.b}}, {{x}}''),
                (''loggedData'', JObj [(''a'', JObj [(''b'', JNum 1)])]),
                (''timestamp'', JStr ''T'')]]
   \<and> list_all key_piece [Text ''v: '', Hole ''a.b'', Text '', '', Hole ''x'']
   \<and> field_at (JObj [(''a'', JObj [(''b'', JNum 1)])]) (split_on CHR ''.'' ''a.b'') = Some (JNum 1)
   \<and> to_string (JNum 1) = Some ''1''
   \<and> map_of [(''a'', JObj [(''b'', JNum 1)])] (hd (split_on CHR ''.'' ''x'')) = None
   \<and> inherited constructors_only (JObj [(''a'', JObj [(''b'', JNum 1)])])
        (hd (split_on CHR ''.'' ''x'')) = Inr (Data JUndefined)
   \<and> formattedMessage constructors_only ''v: {{a.b}}, {{x}}'' [(''a'', JObj [(''b'', JNum 1)])]
        = Inr ''v: 1, {{x}}''
   \<and> MiniN8N_LogMessageNode_execute constructors_only [[(''a'', JObj [(''b'', JNum 1)])]]
        [(''message'', JStr ''v: {{a.b}}, {{x}}'')]
        = ([''LOG: v: 1, {{x}}''], Inr [[(''a'', JObj [(''b'', JNum 1)])]])"
proof -
  let ?b = constructors_only
  let ?m = "''v: {{a.b}}, {{x}}''"
  let ?item = "[(''a'', JObj [(''b'', JNum 1)])]"
  let ?ps = "[Text ''v: '', Hole ''a.b'', Text '', '', Hole ''x'']"
  note c5 = LogMessageNode_message_verbatim
  have h1: "get_prop [(''message'', JStr ?m)] ''message'' = JStr ?m"
    by (simp add: get_prop_def)
  have h2: "list_all key_piece ?ps"
    by simp
  have h3: "field_at (JObj ?item) (split_on CHR ''.'' ''a.b'') = Some (JNum 1)"
    by simp
  have h4: "to_string (JNum 1) = Some ''1''"
    by (simp add: show_whole_def show_int_def show_nat.simps)
  have h5: "map_of ?item (hd (split_on CHR ''.'' ''x'')) = None
        \<and> inherited ?b (JObj ?item) (hd (split_on CHR ''.'' ''x'')) = Inr (Data JUndefined)"
    by (simp add: constructors_only_def)
  have src: "source_text ?ps = ?m"
    by (simp add: source_text_def)
  have a: "LogMessageNode_execute ''T'' [?item] [(''message'', JStr ?m)] =
          Inr [[(''logMessage'', JStr ?m), (''loggedData'', JObj ?item),
                (''timestamp'', JStr ''T'')]]"
    using c5 [where now = "''T''" and inputData = "[?item]"
        and params = "[(''message'', JStr ?m)]" and m = ?m] h1
    by (simp add: first_or_empty_def get_prop_default_def)
  have ab: "formatted_at ?b ?item ''a.b'' = Inr ''1''"
    using c5 [where b = ?b and item = ?item and k = "''a.b''" and v = "JNum 1" and t = "''1''"]
      h3 h4
    by simp
  have "walk_truthy ?b ?item ''x'' = Inr (Data JUndefined)"
    using c5 [where b = ?b and item = ?item and k = "''x''"] h5 by blast
  then have x: "formatted_at ?b ?item ''x'' = Inr ''{{x}}''"
    using c5 [where b = ?b and item = ?item and k = "''x''"] by simp
  have f: "formattedMessage ?b ?m ?item = Inr ''v: 1, {{x}}''"
    using c5 [where b = ?b and item = ?item and ps = ?ps] h2 ab x
    unfolding src by simp
  have r: "MiniN8N_LogMessageNode_execute ?b [?item] [(''message'', JStr ?m)]
        = ([''LOG: v: 1, {{x}}''], Inr [?item])"
    using c5 [where b = ?b and inputData = "[?item]" and params = "[(''message'', JStr ?m)]"
        and m = ?m] h1 f
    by simp
  from h1 a h2 h3 h4 h5 f r show ?thesis by blast
qed

text \<open>The message \<^verbatim>\<open>"v: {{a}}"\<close> on the input \<^verbatim>\<open>{a: 1}\<close>: the engine's executor returns it
  unresolved, although the path is present and the formatted message is \<^verbatim>\<open>v: 1\<close>.\<close>

theorem LogMessageNode_unresolved_counterexample:
  "LogMessageNode_execute ''T'' [[(''a'', JNum 1)]] [(''message'', JStr ''v: {{a}}'')] =
     Inr [[(''logMessage'', JStr ''v: {{a}}''), (''loggedData'', JObj [(''a'', JNum 1)]),
           (''timestamp'', JStr ''T'')]]
   \<and> formattedMessage constructors_only ''v: {{a}}'' [(''a'', JNum 1)] = Inr ''v: 1''"
proof -
  have "field_at (JObj [(''a'', JNum 1)]) (split_on CHR ''.'' ''a'') = Some (JNum 1)"
    by simp
  then have "walk_truthy constructors_only [(''a'', JNum 1)] ''a'' = Inr (Data (JNum 1))"
    by (rule walk_truthy_fields)
  then have a: "formatted_at constructors_only [(''a'', JNum 1)] ''a'' = Inr ''1''"
    by (simp add: formatted_at_def show_whole_def show_int_def show_nat.simps)
  have "list_all key_piece [Text ''v: '', Hole ''a'']"
    by simp
  from replace_placeholders_lazy_pieces [OF this, of "formatted_at constructors_only [(''a'', JNum 1)]" "[]"] a
  have "formattedMessage constructors_only ''v: {{a}}'' [(''a'', JNum 1)] = Inr ''v: 1''"
    by (simp add: formattedMessage_def source_text_def)
  then show ?thesis
    by (simp add: LogMessageNode_execute_def get_prop_default_def get_prop_def first_or_empty_def)
qed

text \<open>What a key finds beyond the fields of the record is found as well: on the input
  \<^verbatim>\<open>{}\<close> the path \<^verbatim>\<open>constructor.name\<close> finds the name of the inherited constructor.\<close>

lemma inherited_member_found:
  "evaluableCondition constructors_only [] ''{{constructor.name}}'' = Inr (quote ''Object'')
   \<and> formattedMessage constructors_only ''{{constructor}}'' []
       = Inr ''function Object() { [native code] }''"
proof -
  have r: "resolve_path constructors_only [] ''constructor.name'' = Inr (Data (JStr ''Object''))"
    by (simp add: resolve_path_def optional_access_def member_access_def constructors_only_def)
  have s: "serialized_at constructors_only [] ''constructor.name'' = Inr (quote ''Object'')"
    by (simp add: serialized_at_def r)
  have w: "walk_truthy constructors_only [] ''constructor'' = Inr (Host ''Object'')"
    by (simp add: walk_truthy_def truthy_access_def member_access_def constructors_only_def)
  have t: "host_text constructors_only ''Object'' = Inr ''function Object() { [native code] }''"
    by (simp add: constructors_only_def)
  have f: "formatted_at constructors_only [] ''constructor''
             = Inr ''function Object() { [native code] }''"
    by (simp add: formatted_at_def w t)
  have p1: "list_all path_piece [Hole ''constructor.name'']" by simp
  have p2: "list_all key_piece [Hole ''constructor'']" by simp
  from replace_placeholders_pieces [OF p1, of "serialized_at constructors_only []" "[]"] s
       replace_placeholders_lazy_pieces [OF p2, of "formatted_at constructors_only []" "[]"] f
  show ?thesis
    by (simp add: evaluableCondition_def formattedMessage_def source_text_def)
qed
section \<open>Correctness of the scheduler\<close>

subsection \<open>The inner loop\<close>

lemma visitNeighbors_degree:
  "map_of (fst (visitNeighbors nbs (deg, q))) v =
     map_option (\<lambda>d. d - int (count_list nbs v)) (map_of deg v)"
proof (induction nbs arbitrary: deg q)
  case Nil
  show ?case by (simp add: option.map_ident)
next
  case (Cons nb nbs)
  show ?case
  proof (cases "map_of deg nb")
    case None
    then show ?thesis using Cons.IH [of deg q] by (cases "nb = v") auto
  next
    case (Some d)
    then show ?thesis
      using Cons.IH [of "AList.update nb (d - 1) deg" "if d - 1 = 0 then q @ [nb] else q"]
      by (cases "nb = v") (auto simp: update_conv')
  qed
qed

lemma visitNeighbors_queue:
  "\<exists>new. snd (visitNeighbors nbs (deg, q)) = q @ new \<and> distinct new \<and>
     set new = {v \<in> set nbs. \<exists>d. map_of deg v = Some d \<and> 1 \<le> d \<and> d \<le> int (count_list nbs v)}"
proof (induction nbs arbitrary: deg q)
  case Nil
  show ?case by simp
next
  case (Cons nb nbs)
  show ?case
  proof (cases "map_of deg nb")
    case None
    from Cons.IH [of deg q] obtain new where
      n: "snd (visitNeighbors nbs (deg, q)) = q @ new" "distinct new"
         "set new = {v \<in> set nbs. \<exists>d. map_of deg v = Some d \<and> 1 \<le> d \<and> d \<le> int (count_list nbs v)}"
      by blast
    have "set new = {v \<in> set (nb # nbs). \<exists>d. map_of deg v = Some d \<and> 1 \<le> d
              \<and> d \<le> int (count_list (nb # nbs) v)}"
      using n(3) None by auto
    with n(1,2) None show ?thesis by auto
  next
    case (Some d)
    let ?deg = "AList.update nb (d - 1) deg"
    let ?hd = "if d - 1 = 0 then [nb] else []"
    from Cons.IH [of ?deg "q @ ?hd"] obtain new where
      n: "snd (visitNeighbors nbs (?deg, q @ ?hd)) = (q @ ?hd) @ new" "distinct new"
         "set new = {v \<in> set nbs. \<exists>d'. map_of ?deg v = Some d' \<and> 1 \<le> d' \<and> d' \<le> int (count_list nbs v)}"
      by blast
    have v: "visitNeighbors (nb # nbs) (deg, q) = visitNeighbors nbs (?deg, q @ ?hd)"
      using Some by simp
    have nb_new: "nb \<in> set new \<longleftrightarrow> nb \<in> set nbs \<and> 2 \<le> d \<and> d - 1 \<le> int (count_list nbs nb)"
      using n(3) by (auto simp: update_conv')
    have other: "\<And>v. v \<noteq> nb \<Longrightarrow> v \<in> set new \<longleftrightarrow>
        v \<in> set nbs \<and> (\<exists>d. map_of deg v = Some d \<and> 1 \<le> d \<and> d \<le> int (count_list nbs v))"
      using n(3) by (auto simp: update_conv')
    have pos: "1 \<le> d - 1 \<Longrightarrow> d - 1 \<le> int (count_list nbs nb) \<Longrightarrow> nb \<in> set nbs"
      by (rule ccontr) simp
    have d: "distinct (?hd @ new)"
      using n(2) nb_new by auto
    have s: "set (?hd @ new) = {v \<in> set (nb # nbs). \<exists>d. map_of deg v = Some d \<and> 1 \<le> d
              \<and> d \<le> int (count_list (nb # nbs) v)}" (is "?L = ?R")
    proof (rule set_eqI)
      fix v
      show "v \<in> ?L \<longleftrightarrow> v \<in> ?R"
      proof (cases "v = nb")
        case True
        then show ?thesis using nb_new Some pos by auto
      next
        case False
        then show ?thesis using other [OF False] by auto
      qed
    qed
    show ?thesis
      unfolding v using n(1) d s by (intro exI [of _ "?hd @ new"]) simp
  qed
qed


subsection \<open>Graph construction\<close>

lemma initGraph_split:
  "fold (\<lambda>n (inDegree, graph).
             (AList.update (node_id n) 0 inDegree, AList.update (node_id n) [] graph)) ns (d, g)
   = (fold (\<lambda>n. AList.update (node_id n) 0) ns d, fold (\<lambda>n. AList.update (node_id n) []) ns g)"
  by (induction ns arbitrary: d g) auto

lemma fold_update_map_of:
  "map_of (fold (\<lambda>n. AList.update (f n) v) ns al) k =
     (if k \<in> f ` set ns then Some v else map_of al k)"
  by (induction ns arbitrary: al) (auto simp: update_conv')

lemma fold_update_dom:
  "fst ` set (fold (\<lambda>n. AList.update (f n) v) ns al) = fst ` set al \<union> f ` set ns"
  by (induction ns arbitrary: al) (auto simp: dom_update)

lemma fold_update_keys:
  "distinct (map f ns) \<Longrightarrow> f ` set ns \<inter> fst ` set al = {} \<Longrightarrow>
   map fst (fold (\<lambda>n. AList.update (f n) v) ns al) = map fst al @ map f ns"
proof (induction ns arbitrary: al)
  case Nil
  show ?case by simp
next
  case (Cons n ns)
  from Cons.prems have a: "f n \<notin> fst ` set al" by auto
  then have k: "map fst (AList.update (f n) v al) = map fst al @ [f n]"
    by (simp add: update_keys)
  have "f ` set ns \<inter> fst ` set (AList.update (f n) v al) = {}"
    using Cons.prems by (auto simp: dom_update)
  with Cons.IH [of "AList.update (f n) v al"] Cons.prems k show ?case by simp
qed

lemma fold_update_distinct:
  "distinct (map fst al) \<Longrightarrow> distinct (map fst (fold (\<lambda>n. AList.update (f n) v) ns al))"
  by (induction ns arbitrary: al) (auto simp: distinct_update)

lemma buildGraph_ok:
  assumes "fst ` set deg = K" "fst ` set g = K"
    and "\<forall>c\<in>set cs. conn_from c \<in> K \<and> conn_to c \<in> K"
  shows "\<exists>deg' g'. buildGraph cs (deg, g) = Inr (deg', g') \<and> map fst deg' = map fst deg
     \<and> (\<forall>v. map_of deg' v = map_option (\<lambda>d. d + int (length (filter (\<lambda>c. conn_to c = v) cs))) (map_of deg v))
     \<and> (\<forall>v. map_of g' v = map_option (\<lambda>ts. ts @ map conn_to (filter (\<lambda>c. conn_from c = v) cs)) (map_of g v))"
  using assms
proof (induction cs arbitrary: deg g)
  case Nil
  show ?case by (simp add: option.map_ident)
next
  case (Cons c cs)
  from Cons.prems have f: "conn_from c \<in> fst ` set g" and t: "conn_to c \<in> fst ` set g"
    and t': "conn_to c \<in> fst ` set deg" by auto
  from f obtain ts where ts: "map_of g (conn_from c) = Some ts"
    by (metis map_of_eq_None_iff not_Some_eq)
  from t obtain ts' where ts': "map_of g (conn_to c) = Some ts'"
    by (metis map_of_eq_None_iff not_Some_eq)
  from t' obtain d where d: "map_of deg (conn_to c) = Some d"
    by (metis map_of_eq_None_iff not_Some_eq)
  let ?deg = "AList.update (conn_to c) (d + 1) deg"
  let ?g = "AList.update (conn_from c) (ts @ [conn_to c]) g"
  have step: "buildGraph (c # cs) (deg, g) = buildGraph cs (?deg, ?g)"
    using ts ts' d by simp
  have k1: "fst ` set ?deg = K" using Cons.prems(1) t' by (auto simp: dom_update)
  have k2: "fst ` set ?g = K" using Cons.prems(2) f by (auto simp: dom_update)
  have k3: "map fst ?deg = map fst deg" using t' by (simp add: update_keys)
  from Cons.IH [OF k1 k2] Cons.prems(3) obtain deg' g' where
    r: "buildGraph cs (?deg, ?g) = Inr (deg', g')" "map fst deg' = map fst ?deg"
       "\<forall>v. map_of deg' v = map_option (\<lambda>d. d + int (length (filter (\<lambda>c. conn_to c = v) cs))) (map_of ?deg v)"
       "\<forall>v. map_of g' v = map_option (\<lambda>ts. ts @ map conn_to (filter (\<lambda>c. conn_from c = v) cs)) (map_of ?g v)"
    by auto
  have a: "\<forall>v. map_of deg' v = map_option (\<lambda>d. d + int (length (filter (\<lambda>c. conn_to c = v) (c # cs)))) (map_of deg v)"
    using r(3) d by (auto simp: update_conv' option.map_comp comp_def)
  have b: "\<forall>v. map_of g' v = map_option (\<lambda>ts. ts @ map conn_to (filter (\<lambda>c. conn_from c = v) (c # cs))) (map_of g v)"
    using r(4) ts by (auto simp: update_conv' option.map_comp comp_def)
  show ?case unfolding step using r(1,2) k3 a b by auto
qed

lemma buildGraph_invalid:
  assumes "fst ` set g = K" and "\<exists>c\<in>set cs. conn_from c \<notin> K \<or> conn_to c \<notin> K"
  shows "\<exists>a b. buildGraph cs (deg, g) = Inl (InvalidConnection a b) \<and> (a \<notin> K \<or> b \<notin> K)"
  using assms
proof (induction cs arbitrary: deg g)
  case Nil
  then show ?case by simp
next
  case (Cons c cs)
  show ?case
  proof (cases "conn_from c \<in> K \<and> conn_to c \<in> K")
    case False
    then have "map_of g (conn_from c) = None \<or> map_of g (conn_to c) = None"
      using Cons.prems(1) by (auto simp: map_of_eq_None_iff)
    with False show ?thesis by auto
  next
    case True
    then have n: "map_of g (conn_from c) \<noteq> None" "map_of g (conn_to c) \<noteq> None"
      using Cons.prems(1) by (auto simp: map_of_eq_None_iff)
    have k: "\<And>ts. fst ` set (AList.update (conn_from c) ts g) = K"
      using True Cons.prems(1) by (auto simp: dom_update)
    from True Cons.prems(2) have "\<exists>c\<in>set cs. conn_from c \<notin> K \<or> conn_to c \<notin> K" by auto
    from Cons.IH [OF k this] n show ?thesis by auto
  qed
qed

lemma buildGraph_error:
  "buildGraph cs st = Inl e \<Longrightarrow> \<exists>a b. e = InvalidConnection a b"
  by (induction cs st rule: buildGraph.induct) (auto split: if_splits)


subsection \<open>The loop invariant\<close>

lemma precedes_append: "precedes a b xs \<Longrightarrow> precedes a b (xs @ ys)"
  by (induction xs) auto

lemma precedes_appendI: "a \<in> set xs \<Longrightarrow> b \<in> set ys \<Longrightarrow> precedes a b (xs @ ys)"
  by (induction xs) auto

lemma precedes_index:
  "precedes a b xs \<Longrightarrow> \<exists>i j. i < j \<and> j < length xs \<and> xs ! i = a \<and> xs ! j = b"
proof (induction xs)
  case Nil
  then show ?case by simp
next
  case (Cons x xs)
  show ?case
  proof (cases "x = a")
    case True
    with Cons.prems have "b \<in> set xs" by simp
    then obtain j where "j < length xs" "xs ! j = b" by (auto simp: in_set_conv_nth)
    with True have "0 < Suc j \<and> Suc j < length (x # xs) \<and> (x # xs) ! 0 = a \<and> (x # xs) ! Suc j = b"
      by simp
    then show ?thesis by blast
  next
    case False
    with Cons obtain i j where "i < j" "j < length xs" "xs ! i = a" "xs ! j = b" by auto
    then have "Suc i < Suc j \<and> Suc j < length (x # xs) \<and> (x # xs) ! Suc i = a \<and> (x # xs) ! Suc j = b"
      by simp
    then show ?thesis by blast
  qed
qed

lemma pending_insert:
  "n \<notin> U \<Longrightarrow>
   pending (insert n U) E v + count_list (map snd (filter (\<lambda>e. fst e = n) E)) v = pending U E v"
  by (induction E) (auto simp: pending_def)

lemma pending_zero: "pending U E v = 0 \<longleftrightarrow> (\<forall>e\<in>set E. snd e = v \<longrightarrow> fst e \<in> U)"
  by (auto simp: pending_def filter_empty_conv)

lemma kahn_inv_step:
  assumes inv: "kahn_inv V E deg (n # q) order"
    and gok: "graph_ok V E g"
    and vis: "visitNeighbors (case map_of g n of None \<Rightarrow> [] | Some ts \<Rightarrow> ts) (deg, q) = (deg', q')"
  shows "kahn_inv V E deg' q' (order @ [n]) \<and> (\<exists>new. q' = q @ new)"
proof -
  let ?nbs = "map snd (filter (\<lambda>e. fst e = n) E)"
  let ?U = "set order"
  let ?U' = "insert n (set order)"
  from inv have dist: "distinct (order @ n # q)" and sub: "set (order @ n # q) \<subseteq> V"
    and degs: "\<forall>v\<in>V. map_of deg v = Some (int (pending ?U E v))"
    and zero: "\<forall>v\<in>V. v \<in> set (order @ n # q) \<longleftrightarrow> pending ?U E v = 0"
    and prec: "\<forall>e\<in>set E. snd e \<in> set (order @ n # q) \<longrightarrow> precedes (fst e) (snd e) (order @ n # q)"
    by (auto simp: kahn_inv_def)
  from sub have nV: "n \<in> V" by simp
  from dist have nU: "n \<notin> ?U" by simp
  from gok nV have succs: "map_of g n = Some ?nbs" by (simp add: graph_ok_def)
  from gok have EV: "set E \<subseteq> V \<times> V" by (simp add: graph_ok_def)
  then have nbsV: "set ?nbs \<subseteq> V" by auto
  from vis succs have vis': "visitNeighbors ?nbs (deg, q) = (deg', q')" by simp
  have split: "\<And>v. pending ?U' E v + count_list ?nbs v = pending ?U E v"
    by (rule pending_insert [OF nU])
  have degs': "\<forall>v\<in>V. map_of deg' v = Some (int (pending ?U' E v))"
  proof
    fix v assume v: "v \<in> V"
    have "map_of deg' v = map_option (\<lambda>d. d - int (count_list ?nbs v)) (map_of deg v)"
      using visitNeighbors_degree [of ?nbs deg q v] vis' by simp
    also have "\<dots> = Some (int (pending ?U E v) - int (count_list ?nbs v))"
      using degs v by simp
    also have "\<dots> = Some (int (pending ?U' E v))"
      using split [of v] by simp
    finally show "map_of deg' v = Some (int (pending ?U' E v))" .
  qed
  from visitNeighbors_queue [of ?nbs deg q] vis' obtain new where
    q': "q' = q @ new" and dnew: "distinct new"
    and snew: "set new = {v \<in> set ?nbs. \<exists>d. map_of deg v = Some d \<and> 1 \<le> d \<and> d \<le> int (count_list ?nbs v)}"
    by auto
  have new_iff: "\<And>v. v \<in> set new \<longleftrightarrow> v \<in> set ?nbs \<and> pending ?U' E v = 0"
  proof -
    fix v
    show "v \<in> set new \<longleftrightarrow> v \<in> set ?nbs \<and> pending ?U' E v = 0"
    proof (cases "v \<in> set ?nbs")
      case False
      then show ?thesis using snew by simp
    next
      case True
      with nbsV have vV: "v \<in> V" by auto
      from True have "count_list ?nbs v \<noteq> 0"
        by (simp only: count_list_0_iff not_not)
      then have c: "1 \<le> count_list ?nbs v" by simp
      from degs vV have d: "map_of deg v = Some (int (pending ?U E v))" by simp
      show ?thesis using snew True d c split [of v] by auto
    qed
  qed
  have newV: "set new \<subseteq> V" using new_iff nbsV by auto
  have new_fresh: "set new \<inter> set (order @ n # q) = {}"
  proof (rule ccontr)
    assume "set new \<inter> set (order @ n # q) \<noteq> {}"
    then obtain v where v: "v \<in> set new" "v \<in> set (order @ n # q)" by auto
    with newV zero have "pending ?U E v = 0" by auto
    moreover from v(1) new_iff have "v \<in> set ?nbs" by simp
    then have "count_list ?nbs v \<noteq> 0"
      by (simp only: count_list_0_iff not_not)
    ultimately show False using split [of v] by simp
  qed
  have c1: "distinct ((order @ [n]) @ q')"
    using dist dnew new_fresh unfolding q' by auto
  have c2: "set ((order @ [n]) @ q') \<subseteq> V"
    using sub newV unfolding q' by auto
  have c4: "\<forall>v\<in>V. v \<in> set ((order @ [n]) @ q') \<longleftrightarrow> pending (set (order @ [n])) E v = 0"
  proof
    fix v assume vV: "v \<in> V"
    show "v \<in> set ((order @ [n]) @ q') \<longleftrightarrow> pending (set (order @ [n])) E v = 0"
    proof
      assume "v \<in> set ((order @ [n]) @ q')"
      then consider "v \<in> set (order @ n # q)" | "v \<in> set new" unfolding q' by auto
      then show "pending (set (order @ [n])) E v = 0"
      proof cases
        case 1
        with zero vV have "pending ?U E v = 0" by simp
        with split [of v] show ?thesis by simp
      next
        case 2
        with new_iff show ?thesis by simp
      qed
    next
      assume z: "pending (set (order @ [n])) E v = 0"
      then have z': "pending ?U' E v = 0" by simp
      show "v \<in> set ((order @ [n]) @ q')"
      proof (cases "pending ?U E v = 0")
        case True
        with zero vV have "v \<in> set (order @ n # q)" by simp
        then show ?thesis unfolding q' by auto
      next
        case False
        with split [of v] z' have "count_list ?nbs v \<noteq> 0" by simp
        then have "v \<in> set ?nbs" by (simp add: count_list_0_iff)
        with new_iff z' have "v \<in> set new" by simp
        then show ?thesis unfolding q' by simp
      qed
    qed
  qed
  have c5: "\<forall>e\<in>set E. snd e \<in> set ((order @ [n]) @ q') \<longrightarrow> precedes (fst e) (snd e) ((order @ [n]) @ q')"
  proof (intro ballI impI)
    fix e assume e: "e \<in> set E" and m: "snd e \<in> set ((order @ [n]) @ q')"
    have eq: "(order @ [n]) @ q' = (order @ n # q) @ new" unfolding q' by simp
    from m consider "snd e \<in> set (order @ n # q)" | "snd e \<in> set new" unfolding q' by auto
    then show "precedes (fst e) (snd e) ((order @ [n]) @ q')"
    proof cases
      case 1
      with prec e have "precedes (fst e) (snd e) (order @ n # q)" by blast
      then show ?thesis unfolding eq by (rule precedes_append)
    next
      case 2
      with new_iff have "pending ?U' E (snd e) = 0" by simp
      with e have "fst e \<in> ?U'" by (auto simp: pending_zero)
      then have "fst e \<in> set (order @ n # q)" by auto
      then show ?thesis unfolding eq using 2 by (rule precedes_appendI)
    qed
  qed
  have c3: "\<forall>v\<in>V. map_of deg' v = Some (int (pending (set (order @ [n])) E v))"
    using degs' by simp
  show ?thesis
    unfolding kahn_inv_def using c1 c2 c3 c4 c5 q' by blast
qed

lemma kahnLoop_result:
  "kahn_inv V E deg q order \<Longrightarrow> graph_ok V E g \<Longrightarrow>
   (let res = kahnLoop g deg q order in
      distinct res \<and> set res \<subseteq> V
      \<and> (\<forall>v\<in>V. v \<in> set res \<longleftrightarrow> pending (set res) E v = 0)
      \<and> (\<forall>e\<in>set E. snd e \<in> set res \<longrightarrow> precedes (fst e) (snd e) res)
      \<and> (\<exists>rest. res = order @ q @ rest))"
proof (induction g deg q order rule: kahnLoop.induct)
  case (1 graph inDegree executionOrder)
  then show ?case by (simp add: kahn_inv_def)
next
  case (2 graph inDegree nodeId queue executionOrder)
  obtain deg' q' where
    v: "visitNeighbors (case map_of graph nodeId of None \<Rightarrow> [] | Some ts \<Rightarrow> ts) (inDegree, queue) = (deg', q')"
    by (cases "visitNeighbors (case map_of graph nodeId of None \<Rightarrow> [] | Some ts \<Rightarrow> ts) (inDegree, queue)")
  from kahn_inv_step [OF "2.prems"(1) "2.prems"(2) v] obtain new where
    i: "kahn_inv V E deg' q' (executionOrder @ [nodeId])" and n: "q' = queue @ new" by blast
  from "2.IH" [OF v [symmetric] i "2.prems"(2)] v n show ?case
    by (auto simp: Let_def)
qed


subsection \<open>From the loop to getExecutionOrder\<close>

lemma initGraph_eq:
  "initGraph ns = (fold (\<lambda>n. AList.update (node_id n) 0) ns [],
                   fold (\<lambda>n. AList.update (node_id n) []) ns [])"
  unfolding initGraph_def by (rule initGraph_split)

lemma seeds_filter_keys:
  "distinct (map fst al) \<Longrightarrow>
   seeds al = filter (\<lambda>k. map_of al k = Some 0) (map fst al)"
proof (induction al)
  case Nil
  show ?case by (simp add: seeds_def)
next
  case (Cons p al)
  obtain k d where p: "p = (k, d)" by (cases p)
  from Cons.prems p have k: "k \<notin> fst ` set al" and d: "distinct (map fst al)" by auto
  have "filter (\<lambda>k'. map_of (p # al) k' = Some 0) (map fst al)
        = filter (\<lambda>k'. map_of al k' = Some 0) (map fst al)"
    using k p by (intro filter_cong) (auto simp: image_iff)
  with Cons.IH [OF d] p show ?case by (auto simp: seeds_def)
qed

lemma pending_empty_edges:
  "pending {} (edges cs) v = length (filter (\<lambda>c. conn_to c = v) cs)"
  by (simp add: pending_def edges_def filter_map comp_def)

lemma succs_edges:
  "map snd (filter (\<lambda>e. fst e = v) (edges cs)) = map conn_to (filter (\<lambda>c. conn_from c = v) cs)"
  by (simp add: edges_def filter_map comp_def)

text \<open>What \<open>getExecutionOrder\<close> computes on connections with known endpoints.\<close>

lemma getExecutionOrder_valid:
  assumes valid: "\<forall>c\<in>set cs. conn_from c \<in> node_id ` set ns \<and> conn_to c \<in> node_id ` set ns"
  obtains res keys where
    "getExecutionOrder ns cs = (if length res \<noteq> length ns then Inl CycleDetected else Inr res)"
    "distinct res" "set res \<subseteq> node_id ` set ns"
    "\<forall>v\<in>node_id ` set ns. v \<in> set res \<longleftrightarrow> pending (set res) (edges cs) v = 0"
    "\<forall>c\<in>set cs. conn_to c \<in> set res \<longrightarrow> precedes (conn_from c) (conn_to c) res"
    "\<exists>rest. res = filter (\<lambda>v. \<forall>c\<in>set cs. conn_to c \<noteq> v) keys @ rest"
    "distinct keys" "set keys = node_id ` set ns"
    "distinct (map node_id ns) \<longrightarrow> keys = map node_id ns"
proof -
  let ?V = "node_id ` set ns"
  let ?E = "edges cs"
  let ?deg0 = "fold (\<lambda>n. AList.update (node_id n) (0::int)) ns []"
  let ?g0 = "fold (\<lambda>n. AList.update (node_id n) ([]::string list)) ns []"
  have k1: "fst ` set ?deg0 = ?V" by (simp add: fold_update_dom)
  have k2: "fst ` set ?g0 = ?V" by (simp add: fold_update_dom)
  from buildGraph_ok [OF k1 k2 valid] obtain deg g where
    b: "buildGraph cs (?deg0, ?g0) = Inr (deg, g)" and keys: "map fst deg = map fst ?deg0"
    and degs: "\<forall>v. map_of deg v = map_option (\<lambda>d. d + int (length (filter (\<lambda>c. conn_to c = v) cs))) (map_of ?deg0 v)"
    and succs: "\<forall>v. map_of g v = map_option (\<lambda>ts. ts @ map conn_to (filter (\<lambda>c. conn_from c = v) cs)) (map_of ?g0 v)"
    by blast
  let ?keys = "map fst deg"
  have dk: "distinct ?keys" unfolding keys by (rule fold_update_distinct) simp
  have sk: "set ?keys = ?V" unfolding keys using k1 by simp
  have degV: "\<forall>v\<in>?V. map_of deg v = Some (int (pending {} ?E v))"
    using degs by (auto simp: fold_update_map_of pending_empty_edges)
  have gok: "graph_ok ?V ?E g"
    unfolding graph_ok_def
  proof
    show "set ?E \<subseteq> ?V \<times> ?V" using valid by (auto simp: edges_def)
    show "\<forall>v\<in>?V. map_of g v = Some (map snd (filter (\<lambda>e. fst e = v) ?E))"
      using succs by (simp add: fold_update_map_of succs_edges)
  qed
  have seeds_eq: "seeds deg = filter (\<lambda>v. \<forall>c\<in>set cs. conn_to c \<noteq> v) ?keys"
  proof -
    have "seeds deg = filter (\<lambda>k. map_of deg k = Some 0) ?keys"
      by (rule seeds_filter_keys [OF dk])
    also have "\<dots> = filter (\<lambda>v. \<forall>c\<in>set cs. conn_to c \<noteq> v) ?keys"
      using degV sk by (intro filter_cong) (auto simp: pending_empty_edges filter_empty_conv)
    finally show ?thesis .
  qed
  have inv: "kahn_inv ?V ?E deg (seeds deg) []"
    unfolding kahn_inv_def
  proof (intro conjI ballI impI)
    show "distinct ([] @ seeds deg)" unfolding seeds_eq using dk by simp
    show "set ([] @ seeds deg) \<subseteq> ?V" unfolding seeds_eq using sk by auto
    show "\<And>v. v \<in> ?V \<Longrightarrow> map_of deg v = Some (int (pending (set []) ?E v))"
      using degV by fastforce
    show "\<And>v. v \<in> ?V \<Longrightarrow> v \<in> set ([] @ seeds deg) \<longleftrightarrow> pending (set []) ?E v = 0"
      unfolding seeds_eq using sk by (auto simp: pending_empty_edges filter_empty_conv)
    show "\<And>e. e \<in> set ?E \<Longrightarrow> snd e \<in> set ([] @ seeds deg) \<Longrightarrow>
            precedes (fst e) (snd e) ([] @ seeds deg)"
      unfolding seeds_eq by (auto simp: edges_def)
  qed
  let ?res = "kahnLoop g deg (seeds deg) []"
  from kahnLoop_result [OF inv gok]
  have r: "distinct ?res" "set ?res \<subseteq> ?V"
    "\<forall>v\<in>?V. v \<in> set ?res \<longleftrightarrow> pending (set ?res) ?E v = 0"
    "\<forall>e\<in>set ?E. snd e \<in> set ?res \<longrightarrow> precedes (fst e) (snd e) ?res"
    "\<exists>rest. ?res = [] @ seeds deg @ rest"
    by (simp_all add: Let_def)
  have g: "getExecutionOrder ns cs = (if length ?res \<noteq> length ns then Inl CycleDetected else Inr ?res)"
    by (simp add: getExecutionOrder_def initGraph_eq b Let_def)
  have p: "\<forall>c\<in>set cs. conn_to c \<in> set ?res \<longrightarrow> precedes (conn_from c) (conn_to c) ?res"
    using r(4) by (auto simp: edges_def)
  have kd: "distinct (map node_id ns) \<longrightarrow> ?keys = map node_id ns"
    unfolding keys using fold_update_keys [of node_id ns "[]" "0::int"] by simp
  from r(5) have pre: "\<exists>rest. ?res = filter (\<lambda>v. \<forall>c\<in>set cs. conn_to c \<noteq> v) ?keys @ rest"
    unfolding seeds_eq by simp
  show thesis
    by (rule that [OF g r(1) r(2) r(3) p pre dk sk kd])
qed

lemma getExecutionOrder_invalid:
  assumes "\<exists>c\<in>set cs. conn_from c \<notin> node_id ` set ns \<or> conn_to c \<notin> node_id ` set ns"
  shows "\<exists>a b. getExecutionOrder ns cs = Inl (InvalidConnection a b)
          \<and> (a \<notin> node_id ` set ns \<or> b \<notin> node_id ` set ns)"
proof -
  let ?g0 = "fold (\<lambda>n. AList.update (node_id n) ([]::string list)) ns []"
  have k2: "fst ` set ?g0 = node_id ` set ns" by (simp add: fold_update_dom)
  from buildGraph_invalid [OF k2 assms, of "fold (\<lambda>n. AList.update (node_id n) 0) ns []"]
  obtain a b where
    "buildGraph cs (fold (\<lambda>n. AList.update (node_id n) 0) ns [], ?g0) = Inl (InvalidConnection a b)"
    "a \<notin> node_id ` set ns \<or> b \<notin> node_id ` set ns"
    by blast
  then have "getExecutionOrder ns cs = Inl (InvalidConnection a b)
      \<and> (a \<notin> node_id ` set ns \<or> b \<notin> node_id ` set ns)"
    by (simp add: getExecutionOrder_def initGraph_eq)
  then show ?thesis by blast
qed

subsection \<open>Soundness and completeness\<close>

lemma getExecutionOrder_sound:
  assumes "getExecutionOrder ns cs = Inr order"
  shows "distinct order \<and> set order = node_id ` set ns \<and> distinct (map node_id ns)
     \<and> (\<forall>c\<in>set cs. conn_from c \<in> node_id ` set ns \<and> conn_to c \<in> node_id ` set ns)
     \<and> (\<forall>c\<in>set cs. precedes (conn_from c) (conn_to c) order)
     \<and> (\<exists>rest. order = filter (\<lambda>v. \<forall>c\<in>set cs. conn_to c \<noteq> v) (map node_id ns) @ rest)"
proof -
  let ?V = "node_id ` set ns"
  have valid: "\<forall>c\<in>set cs. conn_from c \<in> ?V \<and> conn_to c \<in> ?V"
  proof (rule ccontr)
    assume "\<not> ?thesis"
    then have "\<exists>c\<in>set cs. conn_from c \<notin> ?V \<or> conn_to c \<notin> ?V" by blast
    from getExecutionOrder_invalid [OF this] assms show False by auto
  qed
  obtain res keys where
    g: "getExecutionOrder ns cs = (if length res \<noteq> length ns then Inl CycleDetected else Inr res)"
    and d: "distinct res" and s: "set res \<subseteq> ?V"
    and "\<forall>v\<in>?V. v \<in> set res \<longleftrightarrow> pending (set res) (edges cs) v = 0"
    and p: "\<forall>c\<in>set cs. conn_to c \<in> set res \<longrightarrow> precedes (conn_from c) (conn_to c) res"
    and pre: "\<exists>rest. res = filter (\<lambda>v. \<forall>c\<in>set cs. conn_to c \<noteq> v) keys @ rest"
    and "distinct keys" and "set keys = ?V"
    and kd: "distinct (map node_id ns) \<longrightarrow> keys = map node_id ns"
    by (rule getExecutionOrder_valid [OF valid])
  from g assms have len: "length res = length ns" and eq: "order = res"
    by (auto split: if_splits)
  have "card (set res) = length ns" using d len by (simp add: distinct_card)
  moreover have "card (set res) \<le> card ?V" using s by (simp add: card_mono)
  moreover have "card ?V \<le> length ns"
    using card_length [of "map node_id ns"] by simp
  ultimately have c: "card ?V = length ns" and c': "card (set res) = card ?V" by simp_all
  have dn: "distinct (map node_id ns)"
    using c card_distinct [of "map node_id ns"] by simp
  have sv: "set res = ?V"
    using s c' by (simp add: card_subset_eq)
  from p sv valid have p': "\<forall>c\<in>set cs. precedes (conn_from c) (conn_to c) res" by blast
  show ?thesis
    unfolding eq using d sv dn valid p' pre kd by auto
qed

lemma getExecutionOrder_complete:
  assumes dn: "distinct (map node_id ns)"
    and valid: "\<forall>c\<in>set cs. conn_from c \<in> node_id ` set ns \<and> conn_to c \<in> node_id ` set ns"
    and acyc: "acyclic (set (edges cs))"
  shows "\<exists>order. getExecutionOrder ns cs = Inr order"
proof -
  let ?V = "node_id ` set ns"
  let ?E = "edges cs"
  obtain res keys where
    g: "getExecutionOrder ns cs = (if length res \<noteq> length ns then Inl CycleDetected else Inr res)"
    and d: "distinct res" and s: "set res \<subseteq> ?V"
    and z: "\<forall>v\<in>?V. v \<in> set res \<longleftrightarrow> pending (set res) ?E v = 0"
    and "\<forall>c\<in>set cs. conn_to c \<in> set res \<longrightarrow> precedes (conn_from c) (conn_to c) res"
    and "\<exists>rest. res = filter (\<lambda>v. \<forall>c\<in>set cs. conn_to c \<noteq> v) keys @ rest"
    and "distinct keys" and "set keys = ?V"
    and "distinct (map node_id ns) \<longrightarrow> keys = map node_id ns"
    by (rule getExecutionOrder_valid [OF valid])
  have wf: "wf (set ?E)"
    using acyc by (simp add: finite_acyclic_wf)
  have "set res = ?V"
  proof (rule ccontr)
    assume "set res \<noteq> ?V"
    with s obtain x where x: "x \<in> ?V - set res" by blast
    from wfE_min [OF wf x] obtain m where
      m: "m \<in> ?V - set res" and least: "\<And>y. (y, m) \<in> set ?E \<Longrightarrow> y \<notin> ?V - set res"
      by blast
    from m z have "pending (set res) ?E m \<noteq> 0" by blast
    then obtain e where e: "e \<in> set ?E" "snd e = m" "fst e \<notin> set res"
      by (auto simp: pending_zero)
    from e(1) valid have "fst e \<in> ?V" by (auto simp: edges_def)
    moreover from e have "(fst e, m) \<in> set ?E" by auto
    ultimately show False using least e(3) by blast
  qed
  then have "length res = length ns"
    using d dn distinct_card [of res] distinct_card [of "map node_id ns"] by simp
  with g show ?thesis by simp
qed

lemma precedes_mem: "precedes a b xs \<Longrightarrow> a \<in> set xs \<and> b \<in> set xs"
  by (induction xs) (auto split: if_splits)

lemma precedes_position:
  "distinct xs \<Longrightarrow> precedes a b xs \<Longrightarrow>
   length (takeWhile (\<lambda>y. y \<noteq> a) xs) < length (takeWhile (\<lambda>y. y \<noteq> b) xs)"
proof (induction xs)
  case Nil
  then show ?case by simp
next
  case (Cons x xs)
  show ?case
  proof (cases "x = a")
    case True
    with Cons.prems have "b \<in> set xs" "a \<notin> set xs" by auto
    then have "b \<noteq> x" using True by auto
    with True show ?thesis by simp
  next
    case False
    with Cons.prems have p: "precedes a b xs" by simp
    then have "b \<in> set xs" by (simp add: precedes_mem)
    with Cons.prems have "b \<noteq> x" by auto
    with False Cons.IH p Cons.prems show ?thesis by simp
  qed
qed

lemma precedes_acyclic:
  assumes "distinct xs" and "\<forall>e\<in>set E. precedes (fst e) (snd e) xs"
  shows "acyclic (set E)"
proof -
  let ?pos = "\<lambda>a. length (takeWhile (\<lambda>y. y \<noteq> a) xs)"
  have "set E \<subseteq> inv_image less_than ?pos"
    using assms by (auto simp: inv_image_def dest!: precedes_position [OF assms(1)] bspec)
  then have "wf (set E)"
    by (rule wf_subset [OF wf_inv_image [OF wf_less_than]])
  then show ?thesis by (rule wf_acyclic)
qed

text \<open>
  Claim C3.  Every order the scheduler returns is a permutation of the node ids in which
  every connection's source stands before its target, and it begins with the nodes
  without incoming connection, in the order of the node list.  The scheduler does return
  an order for every acyclic connection list over distinct node ids all of whose
  endpoints are node ids.
\<close>

theorem getExecutionOrder_topological:
  "(\<forall>order. getExecutionOrder ns cs = Inr order \<longrightarrow>
       distinct order \<and> set order = node_id ` set ns
     \<and> (\<forall>c\<in>set cs. \<exists>i j. i < j \<and> j < length order
            \<and> order ! i = conn_from c \<and> order ! j = conn_to c)
     \<and> (\<exists>rest. order = filter (\<lambda>v. \<forall>c\<in>set cs. conn_to c \<noteq> v) (map node_id ns) @ rest))
   \<and> (distinct (map node_id ns)
        \<and> (\<forall>c\<in>set cs. conn_from c \<in> node_id ` set ns \<and> conn_to c \<in> node_id ` set ns)
        \<and> acyclic (set (edges cs))
      \<longrightarrow> (\<exists>order. getExecutionOrder ns cs = Inr order))"
proof (intro conjI allI impI)
  fix order
  assume g: "getExecutionOrder ns cs = Inr order"
  from getExecutionOrder_sound [OF g]
  have d: "distinct order" and s: "set order = node_id ` set ns"
    and p: "\<forall>c\<in>set cs. precedes (conn_from c) (conn_to c) order"
    and r: "\<exists>rest. order = filter (\<lambda>v. \<forall>c\<in>set cs. conn_to c \<noteq> v) (map node_id ns) @ rest"
    by blast+
  show "distinct order" by (rule d)
  show "set order = node_id ` set ns" by (rule s)
  show "\<forall>c\<in>set cs. \<exists>i j. i < j \<and> j < length order
            \<and> order ! i = conn_from c \<and> order ! j = conn_to c"
    using p by (blast dest: precedes_index)
  show "\<exists>rest. order = filter (\<lambda>v. \<forall>c\<in>set cs. conn_to c \<noteq> v) (map node_id ns) @ rest"
    by (rule r)
next
  assume "distinct (map node_id ns)
        \<and> (\<forall>c\<in>set cs. conn_from c \<in> node_id ` set ns \<and> conn_to c \<in> node_id ` set ns)
        \<and> acyclic (set (edges cs))"
  then show "\<exists>order. getExecutionOrder ns cs = Inr order"
    by (intro getExecutionOrder_complete) simp_all
qed

theorem getExecutionOrder_topological_witness:
  "distinct (map node_id sample_nodes)
   \<and> list_all (\<lambda>c. conn_from c \<in> node_id ` set sample_nodes
                  \<and> conn_to c \<in> node_id ` set sample_nodes) sample_connections
   \<and> acyclic (set (edges sample_connections))
   \<and> getExecutionOrder sample_nodes sample_connections
       = Inr [''start-node'', ''fetch-node'', ''log-node'']
   \<and> (\<exists>i j. i < j \<and> j < 3
         \<and> [''start-node'', ''fetch-node'', ''log-node''] ! i = ''fetch-node''
         \<and> [''start-node'', ''fetch-node'', ''log-node''] ! j = ''log-node'')"
proof -
  have h1: "distinct (map node_id sample_nodes)"
    by (simp add: sample_nodes_def)
  have h2: "\<forall>c\<in>set sample_connections. conn_from c \<in> node_id ` set sample_nodes
                  \<and> conn_to c \<in> node_id ` set sample_nodes"
    by (simp add: sample_nodes_def sample_connections_def)
  have h3: "acyclic (set (edges sample_connections))"
    by (rule precedes_acyclic [of "[''start-node'', ''fetch-node'', ''log-node'']"])
       (simp_all add: sample_connections_def edges_def)
  from getExecutionOrder_topological [of sample_nodes sample_connections] h1 h2 h3
  obtain order where e: "getExecutionOrder sample_nodes sample_connections = Inr order"
    by blast
  have e': "getExecutionOrder sample_nodes sample_connections
       = Inr [''start-node'', ''fetch-node'', ''log-node'']"
    by code_simp
  from getExecutionOrder_topological [of sample_nodes sample_connections] e'
  have "\<forall>c\<in>set sample_connections. \<exists>i j. i < j
            \<and> j < length [''start-node'', ''fetch-node'', ''log-node'']
            \<and> [''start-node'', ''fetch-node'', ''log-node''] ! i = conn_from c
            \<and> [''start-node'', ''fetch-node'', ''log-node''] ! j = conn_to c"
    by blast
  then have "\<exists>i j. i < j \<and> j < 3
         \<and> [''start-node'', ''fetch-node'', ''log-node''] ! i = ''fetch-node''
         \<and> [''start-node'', ''fetch-node'', ''log-node''] ! j = ''log-node''"
    by (simp add: sample_connections_def numeral_3_eq_3)
  with e' h1 h2 h3 show ?thesis
    by (simp add: list_all_iff)
qed
section \<open>Properties of the run loop\<close>

subsection \<open>Effects of the storage operations\<close>

lemma readClock_eq: "readClock en w = (env_clock en (ticks w), w\<lparr>ticks := Suc (ticks w)\<rparr>)"
  by (simp add: readClock_def)

lemma updateExecution_trace:
  "trace (updateExecution i p w) =
     trace w @ (case executions w i of
                  None \<Rightarrow> []
                | Some e \<Rightarrow> (case p_status p of None \<Rightarrow> [] | Some s \<Rightarrow> [StatusUpdate i s]))"
  by (simp add: updateExecution_def split: option.splits)

lemma updateExecution_executions:
  "executions (updateExecution i p w) j =
     (if j = i then map_option (\<lambda>e. merge e p) (executions w i) else executions w j)"
  by (simp add: updateExecution_def split: option.splits)

lemma addLog_trace: "trace (addLog en i l m n w) = trace w"
  by (simp add: addLog_def getExecution_def readClock_eq updateExecution_def no_change_def
           split: option.splits)

lemma addLog_executions:
  "executions (addLog en i l m n w) j =
     (if j = i
      then map_option (\<lambda>e. e\<lparr>logs := logs e @
             [\<lparr>timestamp = env_clock en (ticks w), level = l, message = m, entry_nodeId = n\<rparr>]\<rparr>)
             (executions w i)
      else executions w j)"
  by (simp add: addLog_def getExecution_def readClock_eq updateExecution_def no_change_def
                merge_def split: option.splits)

lemma continues_refl: "continues i w w []"
  by (simp add: continues_def)

lemma continues_trans:
  "continues i w w1 evs1 \<Longrightarrow> continues i w1 w2 evs2 \<Longrightarrow> continues i w w2 (evs1 @ evs2)"
  unfolding continues_def
  by (cases "executions w i") (auto intro: prefix_order.trans)

lemma continues_ticks: "continues i w (w\<lparr>ticks := k\<rparr>) []"
  by (simp add: continues_def)

lemma continues_trace: "continues i w (w\<lparr>trace := trace w @ evs\<rparr>) evs"
  by (simp add: continues_def)

lemma continues_addLog: "continues i w (addLog en j l m n w) []"
  by (cases "executions w i") (auto simp: continues_def addLog_trace addLog_executions)

lemma continues_update:
  assumes "p_logs p = None" and "p_results p = None"
  shows "continues i w (updateExecution j p w)
           (case executions w j of
              None \<Rightarrow> []
            | Some e \<Rightarrow> (case p_status p of None \<Rightarrow> [] | Some s \<Rightarrow> [StatusUpdate j s]))"
  using assms
  by (cases "executions w i")
     (auto simp: continues_def updateExecution_trace updateExecution_executions merge_def)

lemma stops_only_simps [simp]:
  "stops_only []" "stops_only (xs @ ys) \<longleftrightarrow> stops_only xs \<and> stops_only ys"
  "stops_only [StatusUpdate j Stopped]"
  by (auto simp: stops_only_def)

lemma continues_stop:
  "\<exists>evs. continues i w (stopExecution en j w) evs \<and> stops_only evs"
proof -
  let ?p = "no_change\<lparr>p_status := Some Stopped, p_completedAt := Some (env_clock en (ticks w))\<rparr>"
  let ?w1 = "w\<lparr>ticks := Suc (ticks w)\<rparr>"
  have s: "stopExecution en j w = updateExecution j ?p ?w1"
    by (simp add: stopExecution_def readClock_eq)
  have "continues i ?w1 (updateExecution j ?p ?w1)
          (case executions ?w1 j of None \<Rightarrow> []
           | Some e \<Rightarrow> (case p_status ?p of None \<Rightarrow> [] | Some s \<Rightarrow> [StatusUpdate j s]))"
    by (rule continues_update) (simp_all add: no_change_def)
  with continues_trans [OF continues_ticks [of i w "Suc (ticks w)"] this]
  show ?thesis unfolding s by (cases "executions w j") (auto simp: no_change_def)
qed

lemma continues_stops:
  "\<exists>evs. continues i w (fold (stopExecution en) js w) evs \<and> stops_only evs"
proof (induction js arbitrary: w)
  case Nil
  show ?case using continues_refl [of i w] by (intro exI [of _ "[]"]) simp
next
  case (Cons j js)
  from continues_stop [of i w en j] obtain e1 where
    1: "continues i w (stopExecution en j w) e1" "stops_only e1" by blast
  from Cons.IH [of "stopExecution en j w"] obtain e2 where
    2: "continues i (stopExecution en j w) (fold (stopExecution en) js (stopExecution en j w)) e2"
       "stops_only e2" by blast
  from continues_trans [OF 1(1) 2(1)] 1(2) 2(2) show ?case
    by (intro exI [of _ "e1 @ e2"]) simp
qed

subsection \<open>Executors and the try block\<close>

lemma continues_exists: "continues i w w' evs \<Longrightarrow> executions w' i = None \<longleftrightarrow> executions w i = None"
  by (cases "executions w i") (auto simp: continues_def)

lemma continues_execute:
  "execute en cls inputData params w = (r, w') \<Longrightarrow> \<exists>evs. continues i w w' evs \<and> stops_only evs"
proof (cases cls)
  case StartNode
  assume "execute en cls inputData params w = (r, w')"
  with StartNode have "w' = w\<lparr>ticks := Suc (ticks w)\<rparr>" by (simp add: readClock_eq)
  then show ?thesis using continues_ticks [of i w] by (intro exI [of _ "[]"]) simp
next
  case LogMessageNode
  assume "execute en cls inputData params w = (r, w')"
  with LogMessageNode have "w' = w\<lparr>ticks := Suc (ticks w)\<rparr>" by (simp add: readClock_eq)
  then show ?thesis using continues_ticks [of i w] by (intro exI [of _ "[]"]) simp
next
  case IfNode
  assume "execute en cls inputData params w = (r, w')"
  with IfNode have "w' = w" by simp
  then show ?thesis using continues_refl [of i w] by (intro exI [of _ "[]"]) simp
next
  case FetchApiNode
  assume "execute en cls inputData params w = (r, w')"
  with FetchApiNode have "w' = w \<or> w' = fold (stopExecution en) (env_stops en (length (trace w))) w"
    by (auto split: prod.splits if_splits)
  then show ?thesis
    using continues_refl [of i w] continues_stops [of i w en "env_stops en (length (trace w))"]
    by (elim disjE) (auto intro: exI [of _ "[]"])
qed

lemma tryNode_cases:
  assumes "tryNode en workflow nodeConfig stored w = (r, w')"
  shows "(nodeRegistry (node_type nodeConfig) = None
            \<and> r = Inl (UnregisteredNodeType (node_type nodeConfig)) \<and> w' = w)
         \<or> (\<exists>stops. stops_only stops
               \<and> continues i w w'
                    (Invoked (node_id nodeConfig)
                       (gatherInput (connections workflow) stored (node_id nodeConfig))
                     # stops @ (case r of Inl e \<Rightarrow> []
                                | Inr outputData \<Rightarrow> [Succeeded (node_id nodeConfig) outputData])))"
proof (cases "nodeRegistry (node_type nodeConfig)")
  case None
  with assms show ?thesis by (simp add: tryNode_def)
next
  case (Some cls)
  let ?inp = "gatherInput (connections workflow) stored (node_id nodeConfig)"
  let ?w1 = "w\<lparr>trace := trace w @ [Invoked (node_id nodeConfig) ?inp]\<rparr>"
  let ?ps = "case node_params nodeConfig of None \<Rightarrow> [] | Some ps \<Rightarrow> ps"
  obtain x w2 where ex: "execute en cls ?inp ?ps ?w1 = (x, w2)"
    by (cases "execute en cls ?inp ?ps ?w1")
  from continues_execute [OF ex, of i] obtain stops where
    c: "continues i ?w1 w2 stops" and s: "stops_only stops" by blast
  have c1: "continues i w ?w1 [Invoked (node_id nodeConfig) ?inp]"
    by (rule continues_trace)
  note c2 = continues_trans [OF c1 c]
  show ?thesis
  proof (cases x)
    case (Inl e)
    with assms Some ex have "r = Inl e" "w' = w2" by (simp_all add: tryNode_def Let_def)
    with c2 s show ?thesis by auto
  next
    case (Inr outputData)
    with assms Some ex have r: "r = Inr outputData"
      and w': "w' = w2\<lparr>trace := trace w2 @ [Succeeded (node_id nodeConfig) outputData]\<rparr>"
      by (simp_all add: tryNode_def Let_def)
    from continues_trans [OF c2 continues_trace [of i w2 "[Succeeded (node_id nodeConfig) outputData]"]]
    have "continues i w w' (Invoked (node_id nodeConfig) ?inp # stops
                              @ [Succeeded (node_id nodeConfig) outputData])"
      unfolding w' by simp
    with r s show ?thesis by auto
  qed
qed

subsection \<open>Inputs\<close>

lemma gatherInput_fold:
  "fold (\<lambda>conn inputData. case map_of stored (conn_from conn) of
                              None \<Rightarrow> inputData | Some r \<Rightarrow> inputData @ r) cs acc
   = acc @ concat (map (\<lambda>c. case map_of stored (conn_from c) of None \<Rightarrow> [] | Some r \<Rightarrow> r) cs)"
  by (induction cs arbitrary: acc) (auto split: option.splits)

lemma gatherInput_expected: "gatherInput conns stored n = expectedInput conns stored n"
  by (simp add: gatherInput_def expectedInput_def gatherInput_fold Let_def)

lemma storedResults_simps [simp]:
  "storedResults acc [] = acc"
  "storedResults acc (Invoked n i # evs) = storedResults acc evs"
  "storedResults acc (Succeeded n out # evs) = storedResults (AList.update n out acc) evs"
  "storedResults acc (NodeError n e # evs) = storedResults acc evs"
  "storedResults acc (StatusUpdate j s # evs) = storedResults acc evs"
  "storedResults acc (xs @ ys) = storedResults (storedResults acc xs) ys"
  by (simp_all add: storedResults_def)

lemma inputs_ok_append:
  "inputs_ok conns stored (xs @ ys) \<longleftrightarrow>
     inputs_ok conns stored xs \<and> inputs_ok conns (storedResults stored xs) ys"
  by (induction conns stored xs rule: inputs_ok.induct) simp_all

lemma stops_only_stored: "stops_only evs \<Longrightarrow> storedResults acc evs = acc"
  by (induction evs) (auto simp: stops_only_def)

lemma stops_only_inputs_ok: "stops_only evs \<Longrightarrow> inputs_ok conns stored evs"
  by (induction evs) (auto simp: stops_only_def)

lemma inputs_ok_split:
  "inputs_ok conns stored evs \<Longrightarrow> evs = pre @ Invoked n inputData # post \<Longrightarrow>
   inputData = expectedInput conns (storedResults stored pre) n"
  by (simp add: inputs_ok_append)

subsection \<open>The loop over the execution order\<close>

lemma calm_simps [simp]:
  "calm []" "calm (xs @ ys) \<longleftrightarrow> calm xs \<and> calm ys"
  "calm (ev # evs) \<longleftrightarrow> calm_event ev \<and> calm evs"
  by (simp_all add: calm_def)

lemma stops_only_calm: "stops_only evs \<Longrightarrow> calm evs"
  by (auto simp: stops_only_def calm_def list_all_iff)

lemma tryNode_effect:
  assumes "tryNode en workflow nodeConfig stored w = (r, w')"
  shows "\<exists>seg. continues i w w' seg \<and> calm seg \<and> inputs_ok (connections workflow) stored seg
     \<and> storedResults stored seg =
         (case r of Inl e \<Rightarrow> stored | Inr out \<Rightarrow> AList.update (node_id nodeConfig) out stored)"
  using tryNode_cases [OF assms, of i]
proof
  assume "nodeRegistry (node_type nodeConfig) = None
            \<and> r = Inl (UnregisteredNodeType (node_type nodeConfig)) \<and> w' = w"
  then show ?thesis using continues_refl [of i w] by (intro exI [of _ "[]"]) simp
next
  assume "\<exists>stops. stops_only stops
               \<and> continues i w w'
                    (Invoked (node_id nodeConfig)
                       (gatherInput (connections workflow) stored (node_id nodeConfig))
                     # stops @ (case r of Inl e \<Rightarrow> []
                                | Inr outputData \<Rightarrow> [Succeeded (node_id nodeConfig) outputData]))"
  then obtain stops where s: "stops_only stops"
    and c: "continues i w w'
              (Invoked (node_id nodeConfig)
                 (gatherInput (connections workflow) stored (node_id nodeConfig))
               # stops @ (case r of Inl e \<Rightarrow> []
                          | Inr outputData \<Rightarrow> [Succeeded (node_id nodeConfig) outputData]))"
    by blast
  let ?seg = "Invoked (node_id nodeConfig)
                 (gatherInput (connections workflow) stored (node_id nodeConfig))
               # stops @ (case r of Inl e \<Rightarrow> []
                          | Inr outputData \<Rightarrow> [Succeeded (node_id nodeConfig) outputData])"
  have "calm ?seg" using stops_only_calm [OF s] by (cases r) simp_all
  moreover have "inputs_ok (connections workflow) stored ?seg"
    using stops_only_inputs_ok [OF s] stops_only_stored [OF s]
    by (cases r) (simp_all add: gatherInput_expected inputs_ok_append)
  moreover have "storedResults stored ?seg =
         (case r of Inl e \<Rightarrow> stored | Inr out \<Rightarrow> AList.update (node_id nodeConfig) out stored)"
    using stops_only_stored [OF s] by (cases r) simp_all
  ultimately show ?thesis using c by blast
qed

lemma node_failed_end_prepend:
  assumes c: "continues i w w1 seg" and s: "calm seg" and f: "node_failed_end i w1 w' evs"
  shows "node_failed_end i w w' (seg @ evs)"
proof -
  from f obtain pre n err where p: "calm pre"
    and e: "evs = pre @ NodeError n err #
                  (case executions w1 i of None \<Rightarrow> [] | Some e \<Rightarrow> [StatusUpdate i Failed])"
    and x: "\<forall>e. executions w1 i = Some e \<longrightarrow>
              (\<exists>e'. executions w' i = Some e' \<and> status e' = Failed \<and> currentNodeId e' = None
                 \<and> (\<exists>ls t. logs e' = ls @ [\<lparr>timestamp = t, level = ErrorLevel,
                                message = ''ERROR: '' @ error_message err,
                                entry_nodeId = Some n\<rparr>]))"
    unfolding node_failed_end_def by blast
  have same: "(case executions w1 i of None \<Rightarrow> [] | Some e \<Rightarrow> [StatusUpdate i Failed])
            = (case executions w i of None \<Rightarrow> [] | Some e \<Rightarrow> [StatusUpdate i Failed])"
    using continues_exists [OF c] by (cases "executions w i"; cases "executions w1 i") auto
  have x': "\<forall>e. executions w i = Some e \<longrightarrow>
              (\<exists>e'. executions w' i = Some e' \<and> status e' = Failed \<and> currentNodeId e' = None
                 \<and> (\<exists>ls t. logs e' = ls @ [\<lparr>timestamp = t, level = ErrorLevel,
                                message = ''ERROR: '' @ error_message err,
                                entry_nodeId = Some n\<rparr>]))"
  proof (intro allI impI)
    fix e0 assume "executions w i = Some e0"
    with c obtain e1 where "executions w1 i = Some e1" by (auto simp: continues_def)
    with x show "\<exists>e'. executions w' i = Some e' \<and> status e' = Failed \<and> currentNodeId e' = None
                 \<and> (\<exists>ls t. logs e' = ls @ [\<lparr>timestamp = t, level = ErrorLevel,
                                message = ''ERROR: '' @ error_message err,
                                entry_nodeId = Some n\<rparr>])"
      by blast
  qed
  have "seg @ evs = (seg @ pre) @ NodeError n err #
                  (case executions w i of None \<Rightarrow> [] | Some e \<Rightarrow> [StatusUpdate i Failed])"
    unfolding e same by simp
  moreover have "calm (seg @ pre)" using s p by simp
  ultimately show ?thesis
    unfolding node_failed_end_def using x' by blast
qed

text \<open>Appending a log entry and then writing the status \<open>Failed\<close>, as both \<^verbatim>\<open>catch\<close>
  blocks do.\<close>

lemma failure_written:
  "continues i w (updateExecution i (failed_patch t) ((addLog en i l m nid w)\<lparr>ticks := k\<rparr>))
     (case executions w i of None \<Rightarrow> [] | Some e \<Rightarrow> [StatusUpdate i Failed])"
  unfolding continues_def
  by (cases "executions w i")
     (simp_all add: updateExecution_trace updateExecution_executions addLog_trace
        addLog_executions failed_patch_def no_change_def merge_def)

lemma failure_record:
  "executions w i = Some e \<Longrightarrow>
   executions (updateExecution i (failed_patch t) ((addLog en i l m nid w)\<lparr>ticks := k\<rparr>)) i
     = Some (e\<lparr>status := Failed, completedAt := Some t, currentNodeId := None,
               logs := logs e @ [\<lparr>timestamp = env_clock en (ticks w), level = l, message = m,
                                  entry_nodeId = nid\<rparr>]\<rparr>)"
  by (simp add: updateExecution_executions addLog_executions failed_patch_def no_change_def
        merge_def)

lemma continues_current:
  "continues i w (updateExecution j (no_change\<lparr>p_currentNodeId := Some c\<rparr>) w) []"
  using continues_update [of "no_change\<lparr>p_currentNodeId := Some c\<rparr>" i w j]
  by (cases "executions w j") (simp_all add: no_change_def)

lemma runNodes_effect:
  "runNodes en workflow i order stored w = (r, w') \<Longrightarrow>
   \<exists>evs. continues i w w' evs \<and> inputs_ok (connections workflow) stored evs
     \<and> (case r of
           Finished res \<Rightarrow> calm evs \<and> res = storedResults stored evs
         | Returned \<Rightarrow> node_failed_end i w w' evs
         | Thrown err \<Rightarrow> calm evs)"
proof (induction order arbitrary: stored w)
  case Nil
  then show ?case using continues_refl [of i w] by (intro exI [of _ "[]"]) auto
next
  case (Cons nodeId rest)
  let ?w1 = "updateExecution i (no_change\<lparr>p_currentNodeId := Some (Some nodeId)\<rparr>) w"
  have c1: "continues i w ?w1 []" by (rule continues_current)
  show ?case
  proof (cases "find (\<lambda>n. node_id n = nodeId) (nodes workflow)")
    case None
    with Cons.prems have "r = Thrown (NodeConfigNotFound nodeId)" "w' = ?w1"
      by (simp_all add: Let_def)
    with c1 show ?thesis by (intro exI [of _ "[]"]) simp
  next
    case (Some nodeConfig)
    let ?w2 = "addLog en i Info (''Executing Node: '' @ node_id nodeConfig @ '' (''
                  @ node_type nodeConfig @ '')'') (Some nodeId) ?w1"
    have c2: "continues i w ?w2 []"
      using continues_trans [OF c1 continues_addLog [of i ?w1 en i]] by simp
    obtain tr w3 where t: "tryNode en workflow nodeConfig stored ?w2 = (tr, w3)"
      by (cases "tryNode en workflow nodeConfig stored ?w2")
    from tryNode_effect [OF t, of i] obtain seg where
      c3: "continues i ?w2 w3 seg" and calm: "calm seg"
      and ok: "inputs_ok (connections workflow) stored seg"
      and st: "storedResults stored seg =
         (case tr of Inl e \<Rightarrow> stored | Inr out \<Rightarrow> AList.update (node_id nodeConfig) out stored)"
      by blast
    have c23: "continues i w w3 seg"
      using continues_trans [OF c2 c3] by simp
    show ?thesis
    proof (cases tr)
      case (Inr outputData)
      let ?stored = "AList.update (node_id nodeConfig) outputData stored"
      let ?w4 = "addLog en i Info (''Output: '' @ pretty outputData) (Some nodeId) w3"
      have c4: "continues i w ?w4 seg"
        using continues_trans [OF c23 continues_addLog [of i w3 en i]] by simp
      from Cons.prems Some t Inr
      have run: "runNodes en workflow i rest ?stored ?w4 = (r, w')"
        by (simp add: Let_def)
      from Cons.IH [OF run] obtain evs where
        c5: "continues i ?w4 w' evs" and ok': "inputs_ok (connections workflow) ?stored evs"
        and res: "case r of
           Finished res \<Rightarrow> calm evs \<and> res = storedResults ?stored evs
         | Returned \<Rightarrow> node_failed_end i ?w4 w' evs
         | Thrown err \<Rightarrow> calm evs"
        by blast
      from st Inr have st': "storedResults stored seg = ?stored" by simp
      have a: "continues i w w' (seg @ evs)"
        by (rule continues_trans [OF c4 c5])
      have b: "inputs_ok (connections workflow) stored (seg @ evs)"
        using ok ok' st' by (simp add: inputs_ok_append)
      have c: "case r of
           Finished res \<Rightarrow> calm (seg @ evs) \<and> res = storedResults stored (seg @ evs)
         | Returned \<Rightarrow> node_failed_end i w w' (seg @ evs)
         | Thrown err \<Rightarrow> calm (seg @ evs)"
      proof (cases r)
        case (Finished x)
        with res calm st' show ?thesis by simp
      next
        case Returned
        with res have "node_failed_end i ?w4 w' evs" by simp
        from node_failed_end_prepend [OF c4 calm this] Returned show ?thesis by simp
      next
        case (Thrown x)
        with res calm show ?thesis by simp
      qed
      from a b c show ?thesis by blast
    next
      case (Inl err)
      let ?w3' = "w3\<lparr>trace := trace w3 @ [NodeError nodeId err]\<rparr>"
      let ?w4 = "addLog en i ErrorLevel (''ERROR: '' @ error_message err) (Some nodeId) ?w3'"
      let ?w6 = "updateExecution i (failed_patch (env_clock en (ticks ?w4)))
                   (?w4\<lparr>ticks := Suc (ticks ?w4)\<rparr>)"
      let ?tail = "case executions w i of None \<Rightarrow> [] | Some e \<Rightarrow> [StatusUpdate i Failed]"
      from Cons.prems Some t Inl have r: "r = Returned" and w': "w' = ?w6"
        by (simp_all add: Let_def readClock_eq)
      have same: "(case executions ?w3' i of None \<Rightarrow> [] | Some e \<Rightarrow> [StatusUpdate i Failed]) = ?tail"
        using continues_exists [OF c23]
        by (cases "executions w i"; cases "executions w3 i") auto
      have c4: "continues i w ?w3' (seg @ [NodeError nodeId err])"
        by (rule continues_trans [OF c23 continues_trace])
      have c5: "continues i ?w3' ?w6 ?tail"
        using failure_written [where i = i and w = ?w3' and t = "env_clock en (ticks ?w4)"
                 and en = en and l = ErrorLevel and m = "''ERROR: '' @ error_message err"
                 and nid = "Some nodeId" and k = "Suc (ticks ?w4)"]
        unfolding same .
      have a: "continues i w w' (seg @ NodeError nodeId err # ?tail)"
        using continues_trans [OF c4 c5] unfolding w' by simp
      have b: "inputs_ok (connections workflow) stored (seg @ NodeError nodeId err # ?tail)"
        using ok by (cases "executions w i") (simp_all add: inputs_ok_append)
      have rec: "\<forall>e. executions w i = Some e \<longrightarrow>
              (\<exists>e'. executions w' i = Some e' \<and> status e' = Failed \<and> currentNodeId e' = None
                 \<and> (\<exists>ls t. logs e' = ls @ [\<lparr>timestamp = t, level = ErrorLevel,
                                message = ''ERROR: '' @ error_message err,
                                entry_nodeId = Some nodeId\<rparr>]))"
      proof (intro allI impI)
        fix e0 assume "executions w i = Some e0"
        with c4 obtain e3 where e3: "executions ?w3' i = Some e3" by (auto simp: continues_def)
        from failure_record [OF e3, where t = "env_clock en (ticks ?w4)"
                 and en = en and l = ErrorLevel and m = "''ERROR: '' @ error_message err"
                 and nid = "Some nodeId" and k = "Suc (ticks ?w4)"]
        show "\<exists>e'. executions w' i = Some e' \<and> status e' = Failed \<and> currentNodeId e' = None
                 \<and> (\<exists>ls t. logs e' = ls @ [\<lparr>timestamp = t, level = ErrorLevel,
                                message = ''ERROR: '' @ error_message err,
                                entry_nodeId = Some nodeId\<rparr>])"
          unfolding w' by simp
      qed
      have "node_failed_end i w w' (seg @ NodeError nodeId err # ?tail)"
        unfolding node_failed_end_def using calm rec by blast
      with a b r show ?thesis by (intro exI [of _ "seg @ NodeError nodeId err # ?tail"]) simp
    qed
  qed
qed

subsection \<open>The whole run\<close>

lemma calm_status: "calm evs \<Longrightarrow> ev \<in> set evs \<Longrightarrow> ev = StatusUpdate j s \<Longrightarrow> s = Stopped"
  by (auto simp: calm_def list_all_iff)

lemma calm_no_error: "calm evs \<Longrightarrow> NodeError n err \<notin> set evs"
  by (auto simp: calm_def list_all_iff)

lemma calm_inputs_tail:
  "inputs_ok conns stored evs \<Longrightarrow>
   inputs_ok conns stored (evs @ (case x of None \<Rightarrow> [] | Some (e::execution) \<Rightarrow> [StatusUpdate i s]))"
  by (cases x) (simp_all add: inputs_ok_append)

lemma outerCatch_eq:
  "outerCatch en i err w =
     updateExecution i
       (failed_patch (env_clock en
          (ticks (addLog en i ErrorLevel (''Workflow execution failed: '' @ error_message err) None w))))
       ((addLog en i ErrorLevel (''Workflow execution failed: '' @ error_message err) None w)
          \<lparr>ticks := Suc (ticks (addLog en i ErrorLevel
              (''Workflow execution failed: '' @ error_message err) None w))\<rparr>)"
  by (simp add: outerCatch_def Let_def readClock_eq)

lemma outerCatch_continues:
  "continues i w (outerCatch en i err w)
     (case executions w i of None \<Rightarrow> [] | Some e \<Rightarrow> [StatusUpdate i Failed])"
  unfolding outerCatch_eq by (rule failure_written)

lemma outerCatch_record:
  "executions w i = Some e \<Longrightarrow>
   \<exists>e'. executions (outerCatch en i err w) i = Some e' \<and> status e' = Failed
      \<and> currentNodeId e' = None \<and> results e' = results e
      \<and> logs e' = logs e @ [\<lparr>timestamp = env_clock en (ticks w), level = ErrorLevel,
            message = ''Workflow execution failed: '' @ error_message err, entry_nodeId = None\<rparr>]"
  unfolding outerCatch_eq by (simp add: failure_record)

lemma started_continues: "continues i w (started en workflow i w) []"
  unfolding started_def
  using continues_trans [OF continues_addLog continues_addLog] by simp

lemma executeWorkflow_schedule_error:
  assumes "getExecutionOrder (nodes workflow) (connections workflow) = Inl err"
  shows "executeWorkflow en workflow i w = outerCatch en i err (started en workflow i w)"
  using assms by (simp add: executeWorkflow_def started_def Let_def)

lemma schedule_error_trace:
  assumes "getExecutionOrder (nodes workflow) (connections workflow) = Inl err"
  shows "trace (executeWorkflow en workflow i w) =
           trace w @ (case executions w i of None \<Rightarrow> [] | Some e \<Rightarrow> [StatusUpdate i Failed])"
proof -
  have s: "continues i w (started en workflow i w) []" by (rule started_continues)
  have "(case executions (started en workflow i w) i of None \<Rightarrow> [] | Some e \<Rightarrow> [StatusUpdate i Failed])
      = (case executions w i of None \<Rightarrow> [] | Some e \<Rightarrow> [StatusUpdate i Failed])"
    using continues_exists [OF s]
    by (cases "executions w i"; cases "executions (started en workflow i w) i") auto
  with continues_trans [OF s outerCatch_continues [of i "started en workflow i w" en err]]
  show ?thesis
    unfolding executeWorkflow_schedule_error [OF assms] by (simp add: continues_def)
qed

lemma schedule_error_record:
  assumes "getExecutionOrder (nodes workflow) (connections workflow) = Inl err"
    and "executions w i = Some e"
  shows "\<exists>e'. executions (executeWorkflow en workflow i w) i = Some e' \<and> status e' = Failed
           \<and> currentNodeId e' = None \<and> results e' = results e \<and> prefix (logs e) (logs e')"
proof -
  from started_continues [of i w en workflow] assms(2) obtain e1 where
    e1: "executions (started en workflow i w) i = Some e1" "prefix (logs e) (logs e1)"
        "results e1 = results e"
    by (auto simp: continues_def)
  from outerCatch_record [OF e1(1), of en err] obtain e' where
    "executions (outerCatch en i err (started en workflow i w)) i = Some e'"
    "status e' = Failed" "currentNodeId e' = None" "results e' = results e1"
    "prefix (logs e1) (logs e')"
    by auto
  with e1 show ?thesis
    unfolding executeWorkflow_schedule_error [OF assms(1)]
    by (auto intro: prefix_order.trans)
qed

lemma executeWorkflow_effect:
  "\<exists>evs. trace (executeWorkflow en workflow i w) = trace w @ evs
     \<and> inputs_ok (connections workflow) [] evs
     \<and> (\<forall>e. executions w i = Some e \<longrightarrow>
           (\<exists>e'. executions (executeWorkflow en workflow i w) i = Some e'
              \<and> prefix (logs e) (logs e') \<and> run_end i e e' evs))"
proof (cases "getExecutionOrder (nodes workflow) (connections workflow)")
  case (Inl err)
  let ?tail = "case executions w i of None \<Rightarrow> [] | Some e \<Rightarrow> [StatusUpdate i Failed]"
  have t: "trace (executeWorkflow en workflow i w) = trace w @ ?tail"
    by (rule schedule_error_trace [OF Inl])
  have ok: "inputs_ok (connections workflow) [] ?tail"
    by (cases "executions w i") simp_all
  have "\<forall>e. executions w i = Some e \<longrightarrow>
           (\<exists>e'. executions (executeWorkflow en workflow i w) i = Some e'
              \<and> prefix (logs e) (logs e') \<and> run_end i e e' ?tail)"
  proof (intro allI impI)
    fix e assume e: "executions w i = Some e"
    from schedule_error_record [OF Inl e, of en] obtain e' where
      "executions (executeWorkflow en workflow i w) i = Some e'" "status e' = Failed"
      "currentNodeId e' = None" "results e' = results e" "prefix (logs e) (logs e')"
      by blast
    moreover from this e have "run_end i e e' ?tail"
      unfolding run_end_def by (intro disjI2 disjI1 exI [of _ "[]"]) simp
    ultimately show "\<exists>e'. executions (executeWorkflow en workflow i w) i = Some e'
              \<and> prefix (logs e) (logs e') \<and> run_end i e e' ?tail"
      by blast
  qed
  with t ok show ?thesis by blast
next
  case (Inr order)
  let ?w2 = "started en workflow i w"
  let ?w3 = "addLog en i Info (''Execution order: '' @ join '' -> '' order) None ?w2"
  have c3: "continues i w ?w3 []"
    using continues_trans [OF started_continues continues_addLog] by simp
  obtain r w4 where run: "runNodes en workflow i order [] ?w3 = (r, w4)"
    by (cases "runNodes en workflow i order [] ?w3")
  from runNodes_effect [OF run] obtain evs where
    c4: "continues i ?w3 w4 evs" and ok: "inputs_ok (connections workflow) [] evs"
    and fin: "case r of
           Finished res \<Rightarrow> calm evs \<and> res = storedResults [] evs
         | Returned \<Rightarrow> node_failed_end i ?w3 w4 evs
         | Thrown err \<Rightarrow> calm evs"
    by blast
  have c: "continues i w w4 evs"
    using continues_trans [OF c3 c4] by simp
  have ex3: "\<And>x. (case executions ?w3 i of None \<Rightarrow> [] | Some e \<Rightarrow> [x])
                = (case executions w i of None \<Rightarrow> [] | Some e \<Rightarrow> [x :: event])"
    using continues_exists [OF c3] by (cases "executions w i"; cases "executions ?w3 i") auto
  have ex4: "\<And>x. (case executions w4 i of None \<Rightarrow> [] | Some e \<Rightarrow> [x])
                = (case executions w i of None \<Rightarrow> [] | Some e \<Rightarrow> [x :: event])"
    using continues_exists [OF c] by (cases "executions w i"; cases "executions w4 i") auto
  show ?thesis
  proof (cases r)
    case (Thrown err)
    let ?tail = "case executions w i of None \<Rightarrow> [] | Some e \<Rightarrow> [StatusUpdate i Failed]"
    from Inr run Thrown have w': "executeWorkflow en workflow i w = outerCatch en i err w4"
      by (simp add: executeWorkflow_def started_def Let_def)
    from fin Thrown have calm: "calm evs" by simp
    have t: "trace (executeWorkflow en workflow i w) = trace w @ evs @ ?tail"
      using continues_trans [OF c outerCatch_continues [of i w4 en err]]
      unfolding w' ex4 by (simp add: continues_def)
    have ok': "inputs_ok (connections workflow) [] (evs @ ?tail)"
      using ok by (rule calm_inputs_tail)
    have "\<forall>e. executions w i = Some e \<longrightarrow>
           (\<exists>e'. executions (executeWorkflow en workflow i w) i = Some e'
              \<and> prefix (logs e) (logs e') \<and> run_end i e e' (evs @ ?tail))"
    proof (intro allI impI)
      fix e assume e: "executions w i = Some e"
      with c obtain e4 where e4: "executions w4 i = Some e4" "prefix (logs e) (logs e4)"
        "results e4 = results e" by (auto simp: continues_def)
      from outerCatch_record [OF e4(1), of en err] obtain e' where
        e': "executions (outerCatch en i err w4) i = Some e'" "status e' = Failed"
        "currentNodeId e' = None" "results e' = results e4" "prefix (logs e4) (logs e')"
        by auto
      have "run_end i e e' (evs @ ?tail)"
        unfolding run_end_def using calm e e' e4
        by (intro disjI2 disjI1 exI [of _ evs]) simp
      with e' e4 show "\<exists>e'. executions (executeWorkflow en workflow i w) i = Some e'
              \<and> prefix (logs e) (logs e') \<and> run_end i e e' (evs @ ?tail)"
        unfolding w' by (auto intro: prefix_order.trans)
    qed
    with t ok' show ?thesis by blast
  next
    case Returned
    from Inr run Returned have w': "executeWorkflow en workflow i w = w4"
      by (simp add: executeWorkflow_def started_def Let_def)
    from fin Returned have "node_failed_end i ?w3 w4 evs" by simp
    then obtain pre n err where calm: "calm pre"
      and evs: "evs = pre @ NodeError n err #
                  (case executions w i of None \<Rightarrow> [] | Some e \<Rightarrow> [StatusUpdate i Failed])"
      and rec: "\<forall>e. executions ?w3 i = Some e \<longrightarrow>
              (\<exists>e'. executions w4 i = Some e' \<and> status e' = Failed \<and> currentNodeId e' = None
                 \<and> (\<exists>ls t. logs e' = ls @ [\<lparr>timestamp = t, level = ErrorLevel,
                                message = ''ERROR: '' @ error_message err,
                                entry_nodeId = Some n\<rparr>]))"
      unfolding node_failed_end_def ex3 by blast
    have t: "trace (executeWorkflow en workflow i w) = trace w @ evs"
      using c unfolding w' by (simp add: continues_def)
    have "\<forall>e. executions w i = Some e \<longrightarrow>
           (\<exists>e'. executions (executeWorkflow en workflow i w) i = Some e'
              \<and> prefix (logs e) (logs e') \<and> run_end i e e' evs)"
    proof (intro allI impI)
      fix e assume e: "executions w i = Some e"
      with c3 obtain e3 where e3: "executions ?w3 i = Some e3" by (auto simp: continues_def)
      from e c obtain e4 where e4: "executions w4 i = Some e4" "prefix (logs e) (logs e4)"
        "results e4 = results e" by (auto simp: continues_def)
      from rec e3 e4 have f: "status e4 = Failed" "currentNodeId e4 = None"
        "\<exists>ls t. logs e4 = ls @ [\<lparr>timestamp = t, level = ErrorLevel,
                                message = ''ERROR: '' @ error_message err,
                                entry_nodeId = Some n\<rparr>]"
        by auto
      have "run_end i e e4 evs"
        unfolding run_end_def using calm evs e f e4
        by (intro disjI2 exI [of _ pre] exI [of _ n] exI [of _ err]) simp
      with e4 show "\<exists>e'. executions (executeWorkflow en workflow i w) i = Some e'
              \<and> prefix (logs e) (logs e') \<and> run_end i e e' evs"
        unfolding w' by blast
    qed
    with t ok show ?thesis by blast
  next
    case (Finished res)
    let ?tail = "case executions w i of None \<Rightarrow> [] | Some e \<Rightarrow> [StatusUpdate i Completed]"
    let ?w5 = "addLog en i Info ''--- Workflow Finished Successfully ---'' None w4"
    let ?p = "no_change\<lparr>p_status := Some Completed,
                 p_completedAt := Some (env_clock en (ticks ?w5)),
                 p_currentNodeId := Some None, p_results := Some res\<rparr>"
    from Inr run Finished
    have w': "executeWorkflow en workflow i w = updateExecution i ?p (?w5\<lparr>ticks := Suc (ticks ?w5)\<rparr>)"
      by (simp add: executeWorkflow_def started_def Let_def readClock_eq)
    from fin Finished have calm: "calm evs" and res: "res = storedResults [] evs" by simp_all
    have c5: "continues i w ?w5 evs"
      using continues_trans [OF c continues_addLog] by simp
    have ex5: "(case executions ?w5 i of None \<Rightarrow> [] | Some e \<Rightarrow> [StatusUpdate i Completed]) = ?tail"
      using continues_exists [OF c5] by (cases "executions w i"; cases "executions ?w5 i") auto
    have t: "trace (executeWorkflow en workflow i w) = trace w @ evs @ ?tail"
    proof -
      have "trace (executeWorkflow en workflow i w)
            = trace ?w5 @ (case executions ?w5 i of None \<Rightarrow> [] | Some e \<Rightarrow> [StatusUpdate i Completed])"
        unfolding w' by (simp add: updateExecution_trace no_change_def split: option.splits)
      then show ?thesis using c5 unfolding ex5 by (simp add: continues_def)
    qed
    have ok': "inputs_ok (connections workflow) [] (evs @ ?tail)"
      using ok by (rule calm_inputs_tail)
    have "\<forall>e. executions w i = Some e \<longrightarrow>
           (\<exists>e'. executions (executeWorkflow en workflow i w) i = Some e'
              \<and> prefix (logs e) (logs e') \<and> run_end i e e' (evs @ ?tail))"
    proof (intro allI impI)
      fix e assume e: "executions w i = Some e"
      with c5 obtain e5 where e5: "executions ?w5 i = Some e5" "prefix (logs e) (logs e5)"
        by (auto simp: continues_def)
      have m: "executions (executeWorkflow en workflow i w) i = Some (merge e5 ?p)"
        unfolding w' using e5(1) by (simp add: updateExecution_executions)
      have "run_end i e (merge e5 ?p) (evs @ ?tail)"
        unfolding run_end_def using calm e res
        by (intro disjI1 exI [of _ evs]) (simp add: merge_def no_change_def)
      moreover have "prefix (logs e) (logs (merge e5 ?p))"
        using e5(2) by (simp add: merge_def no_change_def)
      ultimately show "\<exists>e'. executions (executeWorkflow en workflow i w) i = Some e'
              \<and> prefix (logs e) (logs e') \<and> run_end i e e' (evs @ ?tail)"
        using m by blast
    qed
    with t ok' show ?thesis by blast
  qed
qed

subsection \<open>Outputs are logged\<close>

lemma tryNode_succeeded:
  assumes "tryNode en workflow nodeConfig stored w = (r, w')"
    and "trace w' = trace w @ seg" and "Succeeded m out \<in> set seg"
  shows "m = node_id nodeConfig \<and> r = Inr out"
  using tryNode_cases [OF assms(1), of undefined]
proof
  assume "nodeRegistry (node_type nodeConfig) = None
            \<and> r = Inl (UnregisteredNodeType (node_type nodeConfig)) \<and> w' = w"
  with assms(2,3) show ?thesis by simp
next
  assume "\<exists>stops. stops_only stops
               \<and> continues undefined w w'
                    (Invoked (node_id nodeConfig)
                       (gatherInput (connections workflow) stored (node_id nodeConfig))
                     # stops @ (case r of Inl e \<Rightarrow> []
                                | Inr outputData \<Rightarrow> [Succeeded (node_id nodeConfig) outputData]))"
  then obtain stops where s: "stops_only stops"
    and t: "trace w' = trace w @ Invoked (node_id nodeConfig)
                       (gatherInput (connections workflow) stored (node_id nodeConfig))
                     # stops @ (case r of Inl e \<Rightarrow> []
                                | Inr outputData \<Rightarrow> [Succeeded (node_id nodeConfig) outputData])"
    by (auto simp: continues_def)
  from t assms(2) have "seg = Invoked (node_id nodeConfig)
                       (gatherInput (connections workflow) stored (node_id nodeConfig))
                     # stops @ (case r of Inl e \<Rightarrow> []
                                | Inr outputData \<Rightarrow> [Succeeded (node_id nodeConfig) outputData])"
    by simp
  with assms(3) s show ?thesis
    by (cases r) (auto simp: stops_only_def)
qed

text \<open>The log entry written after a node's executor returned.\<close>

lemma runNodes_outputs:
  "runNodes en workflow i order stored w = (r, w') \<Longrightarrow> executions w i = Some e \<Longrightarrow>
   trace w' = trace w @ evs \<Longrightarrow> Succeeded m out \<in> set evs \<Longrightarrow>
   \<exists>e' t. executions w' i = Some e'
     \<and> \<lparr>timestamp = t, level = Info, message = ''Output: '' @ pretty out,
         entry_nodeId = Some m\<rparr> \<in> set (logs e')"
proof (induction order arbitrary: stored w e evs)
  case Nil
  then show ?case by simp
next
  case (Cons nodeId rest)
  let ?w1 = "updateExecution i (no_change\<lparr>p_currentNodeId := Some (Some nodeId)\<rparr>) w"
  have c1: "continues i w ?w1 []" by (rule continues_current)
  show ?case
  proof (cases "find (\<lambda>n. node_id n = nodeId) (nodes workflow)")
    case None
    with Cons.prems(1) have "w' = ?w1" by (simp add: Let_def)
    with c1 Cons.prems(3,4) show ?thesis by (simp add: continues_def)
  next
    case (Some nodeConfig)
    then have id: "node_id nodeConfig = nodeId" by (auto simp: find_Some_iff)
    let ?w2 = "addLog en i Info (''Executing Node: '' @ node_id nodeConfig @ '' (''
                  @ node_type nodeConfig @ '')'') (Some nodeId) ?w1"
    have c2: "continues i w ?w2 []"
      using continues_trans [OF c1 continues_addLog [of i ?w1 en i]] by simp
    obtain tr w3 where t: "tryNode en workflow nodeConfig stored ?w2 = (tr, w3)"
      by (cases "tryNode en workflow nodeConfig stored ?w2")
    from tryNode_effect [OF t, of i] obtain seg where c3: "continues i ?w2 w3 seg" by blast
    have c23: "continues i w w3 seg" using continues_trans [OF c2 c3] by simp
    from c3 have t3: "trace w3 = trace ?w2 @ seg" by (simp add: continues_def)
    show ?thesis
    proof (cases tr)
      case (Inl err)
      let ?w3' = "w3\<lparr>trace := trace w3 @ [NodeError nodeId err]\<rparr>"
      let ?w4 = "addLog en i ErrorLevel (''ERROR: '' @ error_message err) (Some nodeId) ?w3'"
      let ?w6 = "updateExecution i (failed_patch (env_clock en (ticks ?w4)))
                   (?w4\<lparr>ticks := Suc (ticks ?w4)\<rparr>)"
      from Cons.prems(1) Some t Inl have w': "w' = ?w6" by (simp add: Let_def readClock_eq)
      have "trace w' = trace w3 @ NodeError nodeId err #
              (case executions ?w3' i of None \<Rightarrow> [] | Some e \<Rightarrow> [StatusUpdate i Failed])"
        using failure_written [where i = i and w = ?w3' and t = "env_clock en (ticks ?w4)"
                 and en = en and l = ErrorLevel and m = "''ERROR: '' @ error_message err"
                 and nid = "Some nodeId" and k = "Suc (ticks ?w4)"]
        unfolding w' by (simp add: continues_def)
      with c23 Cons.prems(3) have "evs = seg @ NodeError nodeId err #
              (case executions ?w3' i of None \<Rightarrow> [] | Some e \<Rightarrow> [StatusUpdate i Failed])"
        by (simp add: continues_def)
      with Cons.prems(4) have "Succeeded m out \<in> set seg"
        by (cases "executions ?w3' i") auto
      from tryNode_succeeded [OF t t3 this] Inl show ?thesis by simp
    next
      case (Inr outputData)
      let ?stored = "AList.update (node_id nodeConfig) outputData stored"
      let ?w4 = "addLog en i Info (''Output: '' @ pretty outputData) (Some nodeId) w3"
      from Cons.prems(1) Some t Inr
      have run: "runNodes en workflow i rest ?stored ?w4 = (r, w')" by (simp add: Let_def)
      from c23 Cons.prems(2) obtain e3 where e3: "executions w3 i = Some e3"
        by (auto simp: continues_def)
      let ?entry = "\<lparr>timestamp = env_clock en (ticks w3), level = Info,
                     message = ''Output: '' @ pretty outputData, entry_nodeId = Some nodeId\<rparr>"
      have e4: "executions ?w4 i = Some (e3\<lparr>logs := logs e3 @ [?entry]\<rparr>)"
        using e3 by (simp add: addLog_executions)
      from runNodes_effect [OF run, of ] obtain evs2 where c5: "continues i ?w4 w' evs2" by blast
      have t4: "trace ?w4 = trace w @ seg"
        using c23 by (simp add: addLog_trace continues_def)
      from c5 t4 Cons.prems(3) have evs: "evs = seg @ evs2" and t': "trace w' = trace ?w4 @ evs2"
        by (simp_all add: continues_def)
      from Cons.prems(4) evs consider "Succeeded m out \<in> set seg" | "Succeeded m out \<in> set evs2"
        by auto
      then show ?thesis
      proof cases
        case 1
        from tryNode_succeeded [OF t t3 1] Inr id have same: "m = nodeId" "out = outputData" by simp_all
        from c5 e4 obtain e' where e': "executions w' i = Some e'"
          "prefix (logs (e3\<lparr>logs := logs e3 @ [?entry]\<rparr>)) (logs e')"
          by (auto simp: continues_def)
        from e'(2) have "?entry \<in> set (logs e')"
          using set_mono_prefix by fastforce
        with e'(1) same show ?thesis by blast
      next
        case 2
        from Cons.IH [OF run e4 t' 2] show ?thesis .
      qed
    qed
  qed
qed

lemma executeWorkflow_outputs:
  assumes e: "executions w i = Some e"
    and t: "trace (executeWorkflow en workflow i w) = trace w @ evs"
    and s: "Succeeded m out \<in> set evs"
  shows "\<exists>e' t. executions (executeWorkflow en workflow i w) i = Some e'
     \<and> \<lparr>timestamp = t, level = Info, message = ''Output: '' @ pretty out,
         entry_nodeId = Some m\<rparr> \<in> set (logs e')"
proof (cases "getExecutionOrder (nodes workflow) (connections workflow)")
  case (Inl err)
  from schedule_error_trace [OF Inl, of en i w] t s e show ?thesis by simp
next
  case (Inr order)
  let ?w2 = "started en workflow i w"
  let ?w3 = "addLog en i Info (''Execution order: '' @ join '' -> '' order) None ?w2"
  have c3: "continues i w ?w3 []"
    using continues_trans [OF started_continues continues_addLog] by simp
  then obtain e3 where e3: "executions ?w3 i = Some e3" using e by (auto simp: continues_def)
  obtain r w4 where run: "runNodes en workflow i order [] ?w3 = (r, w4)"
    by (cases "runNodes en workflow i order [] ?w3")
  from runNodes_effect [OF run, of ] obtain evs0 where
    c4: "continues i ?w3 w4 evs0" by blast
  then have t4: "trace w4 = trace ?w3 @ evs0" by (simp add: continues_def)
  have t3: "trace ?w3 = trace w" using c3 by (simp add: continues_def)
  have fin: "\<exists>tail. trace (executeWorkflow en workflow i w) = trace w4 @ tail
        \<and> (\<forall>ev\<in>set tail. \<exists>j st. ev = StatusUpdate j st)
        \<and> (\<forall>e4. executions w4 i = Some e4 \<longrightarrow>
             (\<exists>e'. executions (executeWorkflow en workflow i w) i = Some e'
                \<and> prefix (logs e4) (logs e')))"
  proof (cases r)
    case (Thrown err)
    from Inr run Thrown have w': "executeWorkflow en workflow i w = outerCatch en i err w4"
      by (simp add: executeWorkflow_def started_def Let_def)
    show ?thesis
      unfolding w'
      using outerCatch_continues [of i w4 en err]
      by (intro exI [of _ "case executions w4 i of None \<Rightarrow> [] | Some e \<Rightarrow> [StatusUpdate i Failed]"])
         (auto simp: continues_def split: option.splits)
  next
    case Returned
    from Inr run Returned have w': "executeWorkflow en workflow i w = w4"
      by (simp add: executeWorkflow_def started_def Let_def)
    show ?thesis unfolding w' by (intro exI [of _ "[]"]) simp
  next
    case (Finished res)
    let ?w5 = "addLog en i Info ''--- Workflow Finished Successfully ---'' None w4"
    let ?p = "no_change\<lparr>p_status := Some Completed,
                 p_completedAt := Some (env_clock en (ticks ?w5)),
                 p_currentNodeId := Some None, p_results := Some res\<rparr>"
    from Inr run Finished
    have w': "executeWorkflow en workflow i w = updateExecution i ?p (?w5\<lparr>ticks := Suc (ticks ?w5)\<rparr>)"
      by (simp add: executeWorkflow_def started_def Let_def readClock_eq)
    show ?thesis
      unfolding w'
      by (intro exI [of _ "case executions w4 i of None \<Rightarrow> [] | Some e \<Rightarrow> [StatusUpdate i Completed]"])
         (auto simp: updateExecution_trace updateExecution_executions addLog_trace
            addLog_executions merge_def no_change_def split: option.splits)
  qed
  then obtain tail where tl: "trace (executeWorkflow en workflow i w) = trace w4 @ tail"
    and st: "\<forall>ev\<in>set tail. \<exists>j st. ev = StatusUpdate j st"
    and ex: "\<forall>e4. executions w4 i = Some e4 \<longrightarrow>
             (\<exists>e'. executions (executeWorkflow en workflow i w) i = Some e'
                \<and> prefix (logs e4) (logs e'))"
    by blast
  from tl t4 t3 t have "evs = evs0 @ tail" by simp
  with s st have s0: "Succeeded m out \<in> set evs0" by auto
  from runNodes_outputs [OF run e3 t4 s0] obtain e4 ts where
    e4: "executions w4 i = Some e4"
    "\<lparr>timestamp = ts, level = Info, message = ''Output: '' @ pretty out,
         entry_nodeId = Some m\<rparr> \<in> set (logs e4)"
    by blast
  from ex e4(1) obtain e' where e': "executions (executeWorkflow en workflow i w) i = Some e'"
    "prefix (logs e4) (logs e')" by blast
  from e'(2) e4(2) have "\<lparr>timestamp = ts, level = Info, message = ''Output: '' @ pretty out,
         entry_nodeId = Some m\<rparr> \<in> set (logs e')"
    using set_mono_prefix by fastforce
  with e'(1) show ?thesis by blast
qed

text \<open>
  The status writes of a run.  For a stored execution, the run loop writes a status
  exactly once, as the last event of the run, and that status is \<open>Completed\<close> or
  \<open>Failed\<close>.  Every other status written during the run is a \<open>Stopped\<close> of the stop
  route.
\<close>

lemma executeWorkflow_status_last:
  assumes "executions w i = Some e"
  shows "\<exists>pre s. trace (executeWorkflow en workflow i w) = trace w @ pre @ [StatusUpdate i s]
     \<and> (s = Completed \<or> s = Failed)
     \<and> (\<forall>ev\<in>set pre. \<forall>j s'. ev = StatusUpdate j s' \<longrightarrow> s' = Stopped)
     \<and> (\<exists>e'. executions (executeWorkflow en workflow i w) i = Some e' \<and> status e' = s)"
proof -
  from executeWorkflow_effect [of en workflow i w] assms obtain evs e' where
    t: "trace (executeWorkflow en workflow i w) = trace w @ evs"
    and e': "executions (executeWorkflow en workflow i w) i = Some e'"
    and r: "run_end i e e' evs"
    by blast
  from r consider
    (completed) pre where "calm pre" "evs = pre @ [StatusUpdate i Completed]" "status e' = Completed"
  | (thrown) pre where "calm pre" "evs = pre @ [StatusUpdate i Failed]" "status e' = Failed"
  | (node) pre n err where "calm pre" "evs = pre @ [NodeError n err, StatusUpdate i Failed]"
      "status e' = Failed"
    unfolding run_end_def by blast
  then show ?thesis
  proof cases
    case completed
    have "\<forall>ev\<in>set pre. \<forall>j s'. ev = StatusUpdate j s' \<longrightarrow> s' = Stopped"
      using calm_status [OF completed(1)] by blast
    with t e' completed show ?thesis
      by (intro exI [of _ pre] exI [of _ Completed]) simp
  next
    case thrown
    have "\<forall>ev\<in>set pre. \<forall>j s'. ev = StatusUpdate j s' \<longrightarrow> s' = Stopped"
      using calm_status [OF thrown(1)] by blast
    with t e' thrown show ?thesis
      by (intro exI [of _ pre] exI [of _ Failed]) simp
  next
    case node
    have "\<forall>ev\<in>set (pre @ [NodeError n err]). \<forall>j s'. ev = StatusUpdate j s' \<longrightarrow> s' = Stopped"
      using calm_status [OF node(1)] by auto
    with t e' node show ?thesis
      by (intro exI [of _ "pre @ [NodeError n err]"] exI [of _ Failed]) simp
  qed
qed

subsection \<open>The claims about the run loop\<close>

text \<open>
  Claim C2, as the code has it.  In a run of a stored execution in which a node fails,
  the final record has the status \<open>Failed\<close> and no current node; its log extends the log
  from before the run, holds the output entry of every node whose executor returned, and
  ends with the error entry of the failing node; the failure and the status are the last
  two events, so nothing runs downstream.  The run does not write \<open>results\<close>: the field
  is what it was before the run.
\<close>

theorem failed_run_record:
  assumes "executions w i = Some e"
    and "trace (executeWorkflow en workflow i w) = trace w @ evs"
    and "NodeError n err \<in> set evs"
  shows "\<exists>e'. executions (executeWorkflow en workflow i w) i = Some e'
     \<and> status e' = Failed \<and> currentNodeId e' = None
     \<and> results e' = results e
     \<and> prefix (logs e) (logs e')
     \<and> (\<exists>ls t. logs e' = ls @ [\<lparr>timestamp = t, level = ErrorLevel,
                    message = ''ERROR: '' @ error_message err, entry_nodeId = Some n\<rparr>])
     \<and> (\<forall>m out. Succeeded m out \<in> set evs \<longrightarrow>
            (\<exists>t. \<lparr>timestamp = t, level = Info, message = ''Output: '' @ pretty out,
                    entry_nodeId = Some m\<rparr> \<in> set (logs e')))
     \<and> (\<exists>pre. evs = pre @ [NodeError n err, StatusUpdate i Failed]
            \<and> list_all (\<lambda>ev. \<forall>m x. ev \<noteq> NodeError m x) pre)"
proof -
  from executeWorkflow_effect [of en workflow i w] assms(1) obtain evs' e' where
    t: "trace (executeWorkflow en workflow i w) = trace w @ evs'"
    and e': "executions (executeWorkflow en workflow i w) i = Some e'"
    and p: "prefix (logs e) (logs e')"
    and r: "run_end i e e' evs'"
    by blast
  from t assms(2) have eq: "evs' = evs" by simp
  from r consider
    (no_error) pre s where "calm pre" "evs = pre @ [StatusUpdate i s]"
  | (node) pre m x where "calm pre" "evs = pre @ [NodeError m x, StatusUpdate i Failed]"
      "status e' = Failed" "results e' = results e" "currentNodeId e' = None"
      "\<exists>ls t. logs e' = ls @ [\<lparr>timestamp = t, level = ErrorLevel,
                       message = ''ERROR: '' @ error_message x, entry_nodeId = Some m\<rparr>]"
    unfolding run_end_def eq by blast
  then show ?thesis
  proof cases
    case no_error
    with assms(3) calm_no_error [OF no_error(1), of n err] show ?thesis by simp
  next
    case node
    from assms(3) node(2) calm_no_error [OF node(1), of n err]
    have same: "m = n" "x = err" by auto
    have "list_all (\<lambda>ev. \<forall>m x. ev \<noteq> NodeError m x) pre"
      using node(1) by (auto simp: calm_def list_all_iff)
    moreover have "\<forall>m out. Succeeded m out \<in> set evs \<longrightarrow>
            (\<exists>t. \<lparr>timestamp = t, level = Info, message = ''Output: '' @ pretty out,
                    entry_nodeId = Some m\<rparr> \<in> set (logs e'))"
      using executeWorkflow_outputs [OF assms(1,2)] e' by fastforce
    ultimately show ?thesis using e' p node same by blast
  qed
qed

text \<open>
  Claim C9.  Every executor invocation of a run gets as input the expected input for the
  results stored by the events before it: the concatenation, in connection order, of the
  stored result lists of the sources of the node's incoming connections, or the list of
  one empty record if the node has no incoming connection.
\<close>

theorem invoked_with_gathered_input:
  assumes "trace (executeWorkflow en workflow i w) = trace w @ pre @ Invoked n inputData # post"
  shows "inputData = expectedInput (connections workflow) (storedResults [] pre) n
     \<and> (filter (\<lambda>c. conn_to c = n) (connections workflow) = [] \<longrightarrow> inputData = [[]])
     \<and> (filter (\<lambda>c. conn_to c = n) (connections workflow) \<noteq> [] \<longrightarrow>
          inputData = concat (map (\<lambda>c. case map_of (storedResults [] pre) (conn_from c) of
                                          None \<Rightarrow> [] | Some r \<Rightarrow> r)
                                (filter (\<lambda>c. conn_to c = n) (connections workflow))))"
proof -
  from executeWorkflow_effect [of en workflow i w] obtain evs where
    t: "trace (executeWorkflow en workflow i w) = trace w @ evs"
    and ok: "inputs_ok (connections workflow) [] evs"
    by blast
  from t assms have "evs = pre @ Invoked n inputData # post" by simp
  from inputs_ok_split [OF ok this]
  have "inputData = expectedInput (connections workflow) (storedResults [] pre) n" .
  then show ?thesis by (simp add: expectedInput_def)
qed

text \<open>
  Claim C6, as the code has it.  If the connections contain a cycle and all reference
  known node ids, scheduling fails with \<open>CycleDetected\<close>; the run of a stored execution
  then consists of the status write \<open>Failed\<close> alone: no executor is invoked, \<open>results\<close> is
  untouched and the execution is not left running.
\<close>

theorem cyclic_workflow_fails:
  assumes "\<not> acyclic (set (edges (connections workflow)))"
    and "\<forall>c\<in>set (connections workflow).
           conn_from c \<in> node_id ` set (nodes workflow) \<and> conn_to c \<in> node_id ` set (nodes workflow)"
    and "executions w i = Some e"
  shows "getExecutionOrder (nodes workflow) (connections workflow) = Inl CycleDetected
     \<and> trace (executeWorkflow en workflow i w) = trace w @ [StatusUpdate i Failed]
     \<and> (\<exists>e'. executions (executeWorkflow en workflow i w) i = Some e'
            \<and> status e' = Failed \<and> results e' = results e)"
proof -
  obtain res keys where
    g: "getExecutionOrder (nodes workflow) (connections workflow)
          = (if length res \<noteq> length (nodes workflow) then Inl CycleDetected else Inr res)"
    and "distinct res" and "set res \<subseteq> node_id ` set (nodes workflow)"
    and "\<forall>v\<in>node_id ` set (nodes workflow). v \<in> set res \<longleftrightarrow> pending (set res) (edges (connections workflow)) v = 0"
    and "\<forall>c\<in>set (connections workflow). conn_to c \<in> set res \<longrightarrow> precedes (conn_from c) (conn_to c) res"
    and "\<exists>rest. res = filter (\<lambda>v. \<forall>c\<in>set (connections workflow). conn_to c \<noteq> v) keys @ rest"
    and "distinct keys" and "set keys = node_id ` set (nodes workflow)"
    and "distinct (map node_id (nodes workflow)) \<longrightarrow> keys = map node_id (nodes workflow)"
    by (rule getExecutionOrder_valid [OF assms(2)])
  have c: "getExecutionOrder (nodes workflow) (connections workflow) = Inl CycleDetected"
  proof (rule ccontr)
    assume "\<not> ?thesis"
    with g have o: "getExecutionOrder (nodes workflow) (connections workflow) = Inr res"
      by (simp split: if_splits)
    from getExecutionOrder_sound [OF o]
    have "distinct res" "\<forall>c\<in>set (connections workflow). precedes (conn_from c) (conn_to c) res"
      by blast+
    then have "acyclic (set (edges (connections workflow)))"
      by (intro precedes_acyclic [of res]) (auto simp: edges_def)
    with assms(1) show False by simp
  qed
  from schedule_error_trace [OF c, of en i w] assms(3)
  have t: "trace (executeWorkflow en workflow i w) = trace w @ [StatusUpdate i Failed]" by simp
  from schedule_error_record [OF c assms(3), of en] obtain e' where
    "executions (executeWorkflow en workflow i w) i = Some e'" "status e' = Failed"
    "results e' = results e" by blast
  with c t show ?thesis by blast
qed

text \<open>
  Claim C7.  If some connection references a node id that is not in the node list,
  computing the order fails with \<open>InvalidConnection\<close> for a connection with an unknown
  endpoint; the run invokes no executor: its only event is the status \<open>Failed\<close> of a
  stored execution.
\<close>

theorem invalid_connection_rejected:
  assumes "\<exists>c\<in>set (connections workflow).
             conn_from c \<notin> node_id ` set (nodes workflow) \<or> conn_to c \<notin> node_id ` set (nodes workflow)"
  shows "(\<exists>a b. getExecutionOrder (nodes workflow) (connections workflow) = Inl (InvalidConnection a b)
            \<and> (a \<notin> node_id ` set (nodes workflow) \<or> b \<notin> node_id ` set (nodes workflow)))
     \<and> trace (executeWorkflow en workflow i w)
         = trace w @ (case executions w i of None \<Rightarrow> [] | Some e \<Rightarrow> [StatusUpdate i Failed])
     \<and> (\<forall>e. executions w i = Some e \<longrightarrow>
           (\<exists>e'. executions (executeWorkflow en workflow i w) i = Some e'
              \<and> status e' = Failed \<and> results e' = results e))"
proof -
  from getExecutionOrder_invalid [OF assms] obtain a b where
    g: "getExecutionOrder (nodes workflow) (connections workflow) = Inl (InvalidConnection a b)"
    and u: "a \<notin> node_id ` set (nodes workflow) \<or> b \<notin> node_id ` set (nodes workflow)"
    by blast
  have t: "trace (executeWorkflow en workflow i w)
         = trace w @ (case executions w i of None \<Rightarrow> [] | Some e \<Rightarrow> [StatusUpdate i Failed])"
    by (rule schedule_error_trace [OF g])
  have r: "\<forall>e. executions w i = Some e \<longrightarrow>
           (\<exists>e'. executions (executeWorkflow en workflow i w) i = Some e'
              \<and> status e' = Failed \<and> results e' = results e)"
    using schedule_error_record [OF g, of w i _ en] by blast
  from g u t r show ?thesis by blast
qed

subsection \<open>Concrete runs\<close>

lemma trace_update_quiet: "p_status p = None \<Longrightarrow> trace (updateExecution i p w) = trace w"
  by (simp add: updateExecution_trace split: option.splits)

lemma trace_update_status:
  "executions w i \<noteq> None \<Longrightarrow> p_status p = Some s \<Longrightarrow>
   trace (updateExecution i p w) = trace w @ [StatusUpdate i s]"
  by (auto simp: updateExecution_trace)

lemma known_update: "(executions (updateExecution j p w) i = None) = (executions w i = None)"
  by (simp add: updateExecution_executions)

lemma known_addLog: "(executions (addLog en j l m n w) i = None) = (executions w i = None)"
  by (simp add: addLog_executions)

lemma trace_stop:
  "trace (stopExecution en j w) = trace w @ (if executions w j = None then [] else [StatusUpdate j Stopped])"
  by (simp add: stopExecution_def readClock_eq updateExecution_trace no_change_def
           split: option.splits)

lemma known_stop: "(executions (stopExecution en j w) i = None) = (executions w i = None)"
  by (simp add: stopExecution_def readClock_eq updateExecution_executions)

lemmas trace_rules =
  addLog_trace trace_update_quiet trace_update_status known_update known_addLog trace_stop
  known_stop readClock_eq no_change_def failed_patch_def tryNode_def nodeRegistry_def
  gatherInput_def FetchApiNode_execute_def LogMessageNode_execute_def StartNode_execute_def
  get_prop_def get_prop_default_def first_or_empty_def toLowerCase_def lower_char_def
  classify_def outerCatch_def Let_def

lemma two_nodes_order:
  "getExecutionOrder (nodes two_nodes) (connections two_nodes) = Inr [''f'', ''l'']"
  by code_simp

lemma sample_order:
  "getExecutionOrder (nodes sample_workflow) (connections sample_workflow)
     = Inr [''start-node'', ''fetch-node'', ''log-node'']"
  by code_simp

lemma fresh_world_known:
  "executions fresh_world ''e'' =
     Some \<lparr>exec_id = ''e'', workflowId = ''w'', status = Running, startedAt = ''T'',
           completedAt = None, currentNodeId = None, logs = [], results = None\<rparr>"
  by (simp add: fresh_world_def createExecution_def readClock_def quiet_env_def)

lemma fresh_world_trace: "trace fresh_world = []"
  by (simp add: fresh_world_def createExecution_def readClock_def)

text \<open>A run of the two-node workflow during whose HTTP call a stop request arrives.\<close>

lemma stopped_run_trace:
  "trace (executeWorkflow stopping_env two_nodes ''e'' fresh_world) =
     [Invoked ''f'' [[]],
      StatusUpdate ''e'' Stopped,
      Succeeded ''f'' [[(''statusCode'', JNum 200), (''headers'', JObj []),
                        (''data'', JObj [(''ok'', JBool True)]), (''inputData'', JObj [])]],
      Invoked ''l'' [[(''statusCode'', JNum 200), (''headers'', JObj []),
                      (''data'', JObj [(''ok'', JBool True)]), (''inputData'', JObj [])]],
      Succeeded ''l''
        [[(''logMessage'', JStr ''Log output''),
          (''loggedData'', JObj [(''statusCode'', JNum 200), (''headers'', JObj []),
                                 (''data'', JObj [(''ok'', JBool True)]),
                                 (''inputData'', JObj [])]),
          (''timestamp'', JStr ''T'')]],
      StatusUpdate ''e'' Completed]"
  unfolding executeWorkflow_def two_nodes_order
  by (simp add: trace_rules fresh_world_known fresh_world_trace two_nodes_def stopping_env_def
           quiet_env_def ok_transport_def cong: let_weak_cong old.prod.case_cong_weak)

text \<open>A run of the sample workflow in which the HTTP call is answered with status 500.\<close>

lemma failed_run_trace:
  "trace (executeWorkflow failing_env sample_workflow ''e'' fresh_world) =
     [Invoked ''start-node'' [[]],
      Succeeded ''start-node'' [[(''startTime'', JStr ''T'')]],
      Invoked ''fetch-node'' [[(''startTime'', JStr ''T'')]],
      NodeError ''fetch-node'' (HttpStatusError 500 ''Internal Server Error''),
      StatusUpdate ''e'' Failed]"
  unfolding executeWorkflow_def sample_order
  by (simp add: trace_rules fresh_world_known fresh_world_trace sample_workflow_def
           sample_nodes_def sample_connections_def failing_env_def quiet_env_def
           failing_transport_def cong: let_weak_cong old.prod.case_cong_weak)


subsection \<open>The run loop on concrete workflows\<close>

text \<open>
  Claim C1 fails on the code.  The stop route sets the status of a running execution
  to \<open>Stopped\<close>, but the run loop never reads the stored status.  In the run of the
  two-node workflow during whose HTTP call a stop request arrives, the status is
  \<open>Stopped\<close> when the first node returns; the executor of the second node is invoked
  all the same, and the run ends by overwriting the status with \<open>Completed\<close>.
\<close>

theorem stop_request_overwritten:
  "trace (executeWorkflow stopping_env two_nodes ''e'' fresh_world) =
     [Invoked ''f'' [[]],
      StatusUpdate ''e'' Stopped,
      Succeeded ''f'' [[(''statusCode'', JNum 200), (''headers'', JObj []),
                        (''data'', JObj [(''ok'', JBool True)]), (''inputData'', JObj [])]],
      Invoked ''l'' [[(''statusCode'', JNum 200), (''headers'', JObj []),
                      (''data'', JObj [(''ok'', JBool True)]), (''inputData'', JObj [])]],
      Succeeded ''l''
        [[(''logMessage'', JStr ''Log output''),
          (''loggedData'', JObj [(''statusCode'', JNum 200), (''headers'', JObj []),
                                 (''data'', JObj [(''ok'', JBool True)]),
                                 (''inputData'', JObj [])]),
          (''timestamp'', JStr ''T'')]],
      StatusUpdate ''e'' Completed]
   \<and> \<not> terminal_respected ''e'' (trace (executeWorkflow stopping_env two_nodes ''e'' fresh_world))
   \<and> (\<exists>e'. executions (executeWorkflow stopping_env two_nodes ''e'' fresh_world) ''e'' = Some e'
          \<and> status e' = Completed)"
proof -
  from executeWorkflow_status_last [OF fresh_world_known, of stopping_env two_nodes]
  obtain pre s e' where
    t: "trace (executeWorkflow stopping_env two_nodes ''e'' fresh_world)
          = trace fresh_world @ pre @ [StatusUpdate ''e'' s]"
    and e': "executions (executeWorkflow stopping_env two_nodes ''e'' fresh_world) ''e'' = Some e'"
            "status e' = s"
    by blast
  from t have "last (trace (executeWorkflow stopping_env two_nodes ''e'' fresh_world))
                 = StatusUpdate ''e'' s"
    by simp
  then have "s = Completed" by (simp add: stopped_run_trace)
  with e' have "\<exists>e'. executions (executeWorkflow stopping_env two_nodes ''e'' fresh_world) ''e''
                       = Some e' \<and> status e' = Completed"
    by blast
  moreover have "\<not> terminal_respected ''e''
                    (trace (executeWorkflow stopping_env two_nodes ''e'' fresh_world))"
    by (simp add: stopped_run_trace)
  ultimately show ?thesis
    using stopped_run_trace by blast
qed

theorem failed_run_record_witness:
  "executions fresh_world ''e'' \<noteq> None
   \<and> NodeError ''fetch-node'' (HttpStatusError 500 ''Internal Server Error'')
       \<in> set (trace (executeWorkflow failing_env sample_workflow ''e'' fresh_world))
   \<and> (\<exists>e'. executions (executeWorkflow failing_env sample_workflow ''e'' fresh_world) ''e'' = Some e'
          \<and> status e' = Failed \<and> currentNodeId e' = None \<and> results e' = None)"
proof -
  have t: "trace (executeWorkflow failing_env sample_workflow ''e'' fresh_world)
             = trace fresh_world @ trace (executeWorkflow failing_env sample_workflow ''e'' fresh_world)"
    by (simp add: fresh_world_trace)
  have n: "NodeError ''fetch-node'' (HttpStatusError 500 ''Internal Server Error'')
       \<in> set (trace (executeWorkflow failing_env sample_workflow ''e'' fresh_world))"
    by (simp add: failed_run_trace)
  from failed_run_record [OF fresh_world_known t n] n show ?thesis
    by (auto simp: fresh_world_known)
qed

text \<open>The executor of \<^verbatim>\<open>start-node\<close> returned before the failure, yet the final record has
  no \<open>results\<close> at all.\<close>

theorem failed_run_results_counterexample:
  "Succeeded ''start-node'' [[(''startTime'', JStr ''T'')]]
     \<in> set (trace (executeWorkflow failing_env sample_workflow ''e'' fresh_world))
   \<and> status (the (executions (executeWorkflow failing_env sample_workflow ''e'' fresh_world) ''e''))
       = Failed
   \<and> results (the (executions (executeWorkflow failing_env sample_workflow ''e'' fresh_world) ''e''))
       = None"
proof -
  from executeWorkflow_effect [of failing_env sample_workflow "''e''" fresh_world]
  obtain evs e' where
    t: "trace (executeWorkflow failing_env sample_workflow ''e'' fresh_world) = trace fresh_world @ evs"
    and e': "executions (executeWorkflow failing_env sample_workflow ''e'' fresh_world) ''e'' = Some e'"
    and r: "run_end ''e''
              \<lparr>exec_id = ''e'', workflowId = ''w'', status = Running, startedAt = ''T'',
                completedAt = None, currentNodeId = None, logs = [], results = None\<rparr> e' evs"
    using fresh_world_known by blast
  from t have evs: "evs = [Invoked ''start-node'' [[]],
       Succeeded ''start-node'' [[(''startTime'', JStr ''T'')]],
       Invoked ''fetch-node'' [[(''startTime'', JStr ''T'')]],
       NodeError ''fetch-node'' (HttpStatusError 500 ''Internal Server Error''),
       StatusUpdate ''e'' Failed]"
    by (simp add: failed_run_trace fresh_world_trace)
  from r have "status e' = Failed \<and> results e' = None"
    unfolding run_end_def evs by (auto simp: append_eq_Cons_conv Cons_eq_append_conv)
  with e' show ?thesis by (simp add: failed_run_trace)
qed

theorem invoked_with_gathered_input_witness:
  "trace (executeWorkflow stopping_env two_nodes ''e'' fresh_world)
     = trace fresh_world
       @ [Invoked ''f'' [[]], StatusUpdate ''e'' Stopped,
          Succeeded ''f'' [[(''statusCode'', JNum 200), (''headers'', JObj []),
                            (''data'', JObj [(''ok'', JBool True)]), (''inputData'', JObj [])]]]
       @ Invoked ''l'' [[(''statusCode'', JNum 200), (''headers'', JObj []),
                         (''data'', JObj [(''ok'', JBool True)]), (''inputData'', JObj [])]]
       # [Succeeded ''l''
            [[(''logMessage'', JStr ''Log output''),
              (''loggedData'', JObj [(''statusCode'', JNum 200), (''headers'', JObj []),
                                     (''data'', JObj [(''ok'', JBool True)]),
                                     (''inputData'', JObj [])]),
              (''timestamp'', JStr ''T'')]],
          StatusUpdate ''e'' Completed]
   \<and> [[(''statusCode'', JNum 200), (''headers'', JObj []),
         (''data'', JObj [(''ok'', JBool True)]), (''inputData'', JObj [])]]
       = expectedInput (connections two_nodes)
           (storedResults []
              [Invoked ''f'' [[]], StatusUpdate ''e'' Stopped,
               Succeeded ''f'' [[(''statusCode'', JNum 200), (''headers'', JObj []),
                                 (''data'', JObj [(''ok'', JBool True)]),
                                 (''inputData'', JObj [])]]])
           ''l''"
proof -
  have t: "trace (executeWorkflow stopping_env two_nodes ''e'' fresh_world)
     = trace fresh_world
       @ [Invoked ''f'' [[]], StatusUpdate ''e'' Stopped,
          Succeeded ''f'' [[(''statusCode'', JNum 200), (''headers'', JObj []),
                            (''data'', JObj [(''ok'', JBool True)]), (''inputData'', JObj [])]]]
       @ Invoked ''l'' [[(''statusCode'', JNum 200), (''headers'', JObj []),
                         (''data'', JObj [(''ok'', JBool True)]), (''inputData'', JObj [])]]
       # [Succeeded ''l''
            [[(''logMessage'', JStr ''Log output''),
              (''loggedData'', JObj [(''statusCode'', JNum 200), (''headers'', JObj []),
                                     (''data'', JObj [(''ok'', JBool True)]),
                                     (''inputData'', JObj [])]),
              (''timestamp'', JStr ''T'')]],
          StatusUpdate ''e'' Completed]"
    by (simp add: stopped_run_trace fresh_world_trace)
  from invoked_with_gathered_input [OF t] t show ?thesis by blast
qed

lemma two_cycle_cyclic: "\<not> acyclic (set (edges (connections two_cycle)))"
proof -
  let ?r = "set (edges (connections two_cycle))"
  have "(''a'', ''b'') \<in> ?r" "(''b'', ''a'') \<in> ?r"
    by (simp_all add: two_cycle_def edges_def)
  then have "(''a'', ''a'') \<in> ?r\<^sup>+" by (blast intro: trancl_into_trancl r_into_trancl)
  then show ?thesis by (auto simp: acyclic_def)
qed

theorem cyclic_workflow_fails_witness:
  "\<not> acyclic (set (edges (connections two_cycle)))
   \<and> list_all (\<lambda>c. conn_from c \<in> node_id ` set (nodes two_cycle)
                  \<and> conn_to c \<in> node_id ` set (nodes two_cycle)) (connections two_cycle)
   \<and> executions fresh_world ''e'' \<noteq> None
   \<and> getExecutionOrder (nodes two_cycle) (connections two_cycle) = Inl CycleDetected
   \<and> trace (executeWorkflow quiet_env two_cycle ''e'' fresh_world) = [StatusUpdate ''e'' Failed]
   \<and> (\<exists>e'. executions (executeWorkflow quiet_env two_cycle ''e'' fresh_world) ''e'' = Some e'
          \<and> status e' = Failed \<and> results e' = None)"
proof -
  have v: "\<forall>c\<in>set (connections two_cycle).
             conn_from c \<in> node_id ` set (nodes two_cycle) \<and> conn_to c \<in> node_id ` set (nodes two_cycle)"
    by (simp add: two_cycle_def)
  from cyclic_workflow_fails [OF two_cycle_cyclic v fresh_world_known, of quiet_env]
    two_cycle_cyclic v
  show ?thesis by (simp add: fresh_world_known fresh_world_trace list_all_iff)
qed

text \<open>A self-loop together with a connection to the unknown node \<^verbatim>\<open>x\<close>: the connections
  contain a cycle, but scheduling fails with \<open>InvalidConnection\<close>.\<close>

lemma loop_and_dangling_order:
  "getExecutionOrder (nodes loop_and_dangling) (connections loop_and_dangling)
     = Inl (InvalidConnection ''a'' ''x'')"
  by code_simp

theorem cycle_with_dangling_counterexample:
  "\<not> acyclic (set (edges (connections loop_and_dangling)))
   \<and> getExecutionOrder (nodes loop_and_dangling) (connections loop_and_dangling)
       = Inl (InvalidConnection ''a'' ''x'')"
proof -
  have "(''a'', ''a'') \<in> set (edges (connections loop_and_dangling))"
    by (simp add: loop_and_dangling_def edges_def)
  then have "(''a'', ''a'') \<in> (set (edges (connections loop_and_dangling)))\<^sup>+"
    by (rule r_into_trancl)
  then have "\<not> acyclic (set (edges (connections loop_and_dangling)))"
    by (auto simp: acyclic_def)
  with loop_and_dangling_order show ?thesis by simp
qed

theorem invalid_connection_rejected_witness:
  "list_ex (\<lambda>c. conn_from c \<notin> node_id ` set (nodes loop_and_dangling)
                 \<or> conn_to c \<notin> node_id ` set (nodes loop_and_dangling))
        (connections loop_and_dangling)
   \<and> getExecutionOrder (nodes loop_and_dangling) (connections loop_and_dangling)
       = Inl (InvalidConnection ''a'' ''x'')
   \<and> trace (executeWorkflow quiet_env loop_and_dangling ''e'' fresh_world)
       = [StatusUpdate ''e'' Failed]
   \<and> (\<exists>e'. executions (executeWorkflow quiet_env loop_and_dangling ''e'' fresh_world) ''e'' = Some e'
          \<and> status e' = Failed \<and> results e' = None)"
proof -
  have h: "\<exists>c\<in>set (connections loop_and_dangling).
             conn_from c \<notin> node_id ` set (nodes loop_and_dangling)
             \<or> conn_to c \<notin> node_id ` set (nodes loop_and_dangling)"
    by (simp add: loop_and_dangling_def)
  from invalid_connection_rejected [OF h, of quiet_env "''e''" fresh_world] h
  show ?thesis
    by (simp add: fresh_world_known fresh_world_trace loop_and_dangling_order list_ex_iff)
qed

end
